theory Spec2Isabelle
  imports Complex_Main "HOL-Library.Monad_Syntax"
begin

section \<open>Data model\<close>

text \<open>
  The simulation of \<^verbatim>\<open>paralife.py\<close> keeps two numpy arrays per process: the
  \<open>N \<times> N\<close> array \<^verbatim>\<open>self.grid\<close> and the \<open>(N+2) \<times> (N+2)\<close> array
  \<^verbatim>\<open>self.aug_grid\<close>. A two-dimensional array is a list of rows. Cells are
  machine integers in numpy; every cell the program ever holds is 0 or 1 and every sum it
  forms has eight summands, so they are modelled as \<open>int\<close> (no sum can reach the word size).
  An exception raised by the interpreter or by numpy is the value \<open>None\<close>.
\<close>

type_synonym grid = "int list list"

record life =
  N :: nat
  grid :: grid
  aug_grid :: grid

text \<open>Reading \<^verbatim>\<open>a[i]\<close> with a non-negative index: \<^verbatim>\<open>IndexError\<close> out of range.\<close>

definition nth_opt :: "'a list \<Rightarrow> nat \<Rightarrow> 'a option" where
  "nth_opt xs i = (if i < length xs then Some (xs ! i) else None)"

definition cell :: "grid \<Rightarrow> nat \<Rightarrow> nat \<Rightarrow> int option" where
  "cell a i j = do { r \<leftarrow> nth_opt a i; nth_opt r j }"

text \<open>Writing \<^verbatim>\<open>g[row][col] = v\<close>.\<close>

definition set_cell :: "grid \<Rightarrow> nat \<Rightarrow> nat \<Rightarrow> int \<Rightarrow> grid option" where
  "set_cell g row col v =
     (if row < length g \<and> col < length (g ! row)
      then Some (g[row := (g ! row)[col := v]]) else None)"

text \<open>
  A \<^verbatim>\<open>for\<close> loop over a list of indices whose body may raise: the state is threaded
  through the iterations, and the first exception ends the loop.
\<close>

fun for_each :: "'a list \<Rightarrow> ('a \<Rightarrow> 's \<Rightarrow> 's option) \<Rightarrow> 's \<Rightarrow> 's option" where
  "for_each [] body s = Some s"
| "for_each (x # xs) body s =
     (case body x s of None \<Rightarrow> None | Some s' \<Rightarrow> for_each xs body s')"

text \<open>The same statement executed by every process of a list of processes.\<close>

fun map_m :: "('a \<Rightarrow> 'b option) \<Rightarrow> 'a list \<Rightarrow> 'b list option" where
  "map_m f [] = Some []"
| "map_m f (x # xs) =
     (case f x of None \<Rightarrow> None
      | Some y \<Rightarrow> (case map_m f xs of None \<Rightarrow> None | Some ys \<Rightarrow> Some (y # ys)))"

text \<open>Running a step \<open>k\<close> times (\<^verbatim>\<open>for i in range(num_steps)\<close>, or \<open>k\<close> animation frames).\<close>

fun repeat_m :: "nat \<Rightarrow> ('s \<Rightarrow> 's option) \<Rightarrow> 's \<Rightarrow> 's option" where
  "repeat_m 0 step s = Some s"
| "repeat_m (Suc k) step s =
     (case step s of None \<Rightarrow> None | Some s' \<Rightarrow> repeat_m k step s')"

section \<open>The class \<^verbatim>\<open>Life\<close>\<close>

text \<open>
  \<^verbatim>\<open>np.lib.pad(a, ((1,1),(1,1)), 'wrap')\<close> pads each axis in turn: one copy of the last
  element before, one copy of the first element after. An axis of length 0 cannot be
  wrapped (numpy raises).
\<close>

definition pad_wrap :: "'a list \<Rightarrow> 'a list" where
  "pad_wrap xs = last xs # xs @ [hd xs]"

definition form_aug_grid :: "grid \<Rightarrow> grid option" where
  "form_aug_grid a =
     (if a = [] \<or> [] \<in> set a then None else Some (map pad_wrap (pad_wrap a)))"

text \<open>
  \<^verbatim>\<open>__init__\<close>: the random array \<^verbatim>\<open>np.random.choice(2, (N,N))\<close> is the parameter
  \<open>rnd\<close>. The matplotlib figure is not part of the model.
\<close>

definition Life_init :: "nat \<Rightarrow> grid \<Rightarrow> life option" where
  "Life_init n rnd = do {
     aug \<leftarrow> form_aug_grid rnd;
     Some \<lparr>N = n, grid = rnd, aug_grid = aug\<rparr>
   }"

definition neighbor_sum :: "life \<Rightarrow> nat \<Rightarrow> nat \<Rightarrow> int option" where
  "neighbor_sum st row col = do {
     a \<leftarrow> cell (aug_grid st) (row + 2) (col + 2);
     b \<leftarrow> cell (aug_grid st) (row + 2) (col + 1);
     c \<leftarrow> cell (aug_grid st) (row + 2) col;
     d \<leftarrow> cell (aug_grid st) (row + 1) (col + 2);
     e \<leftarrow> cell (aug_grid st) (row + 1) col;
     f \<leftarrow> cell (aug_grid st) row (col + 2);
     g \<leftarrow> cell (aug_grid st) row (col + 1);
     h \<leftarrow> cell (aug_grid st) row col;
     Some (a + b + c + d + e + f + g + h)
   }"

text \<open>
  The body shared by the loops of \<^verbatim>\<open>update\<close> and \<^verbatim>\<open>update_para_1d_dec\<close>:
  \<^verbatim>\<open>
  if self.neighbor_sum(row,col) == 3:
      self.grid[row][col] = 1
  elif self.neighbor_sum(row,col) != 2:
      self.grid[row][col] = 0
  \<close>
\<close>

definition update_cell :: "nat \<Rightarrow> nat \<Rightarrow> life \<Rightarrow> life option" where
  "update_cell row col st = do {
     s \<leftarrow> neighbor_sum st row col;
     if s = 3 then do {
       g \<leftarrow> set_cell (grid st) row col 1;
       Some (st\<lparr>grid := g\<rparr>)
     } else do {
       s' \<leftarrow> neighbor_sum st row col;
       if s' \<noteq> 2 then do {
         g \<leftarrow> set_cell (grid st) row col 0;
         Some (st\<lparr>grid := g\<rparr>)
       } else Some st
     }
   }"

text \<open>\<^verbatim>\<open>self.grid.shape\<close> and \<^verbatim>\<open>np.ndindex\<close> (row-major, the column changing fastest).\<close>

definition shape :: "grid \<Rightarrow> nat \<times> nat" where
  "shape g = (length g, if g = [] then 0 else length (hd g))"

definition ndindex :: "nat \<times> nat \<Rightarrow> (nat \<times> nat) list" where
  "ndindex shp = List.product [0..<fst shp] [0..<snd shp]"

text \<open>
  \<^verbatim>\<open>update\<close>, the serial generation step. The frame number \<^verbatim>\<open>i\<close> is unused by the
  source and the plot it returns is not modelled.
\<close>

definition update :: "life \<Rightarrow> life option" where
  "update st = do {
     st1 \<leftarrow> for_each (ndindex (shape (grid st))) (\<lambda>(row, col). update_cell row col) st;
     aug \<leftarrow> form_aug_grid (grid st1);
     Some (st1\<lparr>aug_grid := aug\<rparr>)
   }"

section \<open>The parallel step\<close>

text \<open>
  The MPI program runs \<^verbatim>\<open>mpi_size\<close> copies of the script in lockstep; the copy with
  rank \<open>r\<close> is the \<open>r\<close>-th element of a list of \<open>life\<close> states. A collective
  \<^verbatim>\<open>comm.bcast(x, root=r)\<close> returns on every process the value that process \<open>r\<close> passed.
\<close>

definition bcast :: "'a list \<Rightarrow> nat \<Rightarrow> 'a option" where
  "bcast sent root_rank = nth_opt sent root_rank"

text \<open>The row ownership test \<^verbatim>\<open>row % mpi_size\<close> (\<^verbatim>\<open>ZeroDivisionError\<close> for 0).\<close>

definition owner :: "nat \<Rightarrow> nat \<Rightarrow> nat option" where
  "owner row mpi_size = (if mpi_size = 0 then None else Some (row mod mpi_size))"

text \<open>
  Lines 60 to 67 of \<^verbatim>\<open>update_para_1d_dec\<close>, executed by the process of rank \<open>rank\<close>:
  \<^verbatim>\<open>
  for row in range(N):
      if(row % mpi_size == rank):
          for col in range(N): ...
  \<close>
\<close>

definition local_compute :: "nat \<Rightarrow> nat \<Rightarrow> nat \<Rightarrow> life \<Rightarrow> life option" where
  "local_compute n mpi_size rank st =
     for_each [0..<n]
       (\<lambda>row s. do {
          w \<leftarrow> owner row mpi_size;
          if w = rank then for_each [0..<n] (\<lambda>col. update_cell row col) s else Some s
        }) st"

text \<open>
  \<^verbatim>\<open>self.grid[row] = r\<close>: the row must exist, and only a row of the same length is
  stored (every array of the program has the shape \<open>(N, N)\<close>).
\<close>

definition assign_row :: "nat \<Rightarrow> int list \<Rightarrow> life \<Rightarrow> life option" where
  "assign_row row r st =
     (if row < length (grid st) \<and> length r = length (grid st ! row)
      then Some (st\<lparr>grid := (grid st)[row := r]\<rparr>) else None)"

text \<open>
  One iteration of lines 71 to 73, on all processes:
  \<^verbatim>\<open>self.grid[row] = comm.bcast(self.grid[row], root=row % mpi_size)\<close>.
\<close>

definition exchange_row :: "nat \<Rightarrow> life list \<Rightarrow> life list option" where
  "exchange_row row ws = do {
     sent \<leftarrow> map_m (\<lambda>st. nth_opt (grid st) row) ws;
     root_rank \<leftarrow> owner row (length ws);
     r \<leftarrow> bcast sent root_rank;
     map_m (assign_row row r) ws
   }"

text \<open>
  \<^verbatim>\<open>update_para_1d_dec\<close> on all processes: the local computation of each rank, the
  exchange of the rows, then rank 0 alone rebuilds the augmented grid and broadcasts it.
\<close>

definition update_para_1d_dec :: "nat \<Rightarrow> life list \<Rightarrow> life list option" where
  "update_para_1d_dec n ws = do {
     ws1 \<leftarrow> map_m (\<lambda>(rank, st). local_compute n (length ws) rank st) (enumerate 0 ws);
     ws2 \<leftarrow> for_each [0..<n] exchange_row ws1;
     st0 \<leftarrow> nth_opt ws2 0;
     aug \<leftarrow> form_aug_grid (grid st0);
     Some (map (\<lambda>st. st\<lparr>aug_grid := aug\<rparr>) ws2)
   }"

section \<open>The script\<close>

text \<open>
  Lines 138 to 152. The script is Python 2 (it uses \<^verbatim>\<open>print\<close> statements), where
  \<^verbatim>\<open>N / mpi_size\<close> on integers is floor division. \<^verbatim>\<open>N*1.0 / mpi_size\<close> is a
  floating-point quotient, modelled by the exact quotient: for \<open>0 \<le> N < 2^53\<close> the
  rounding of the division cannot cross an integer, so \<^verbatim>\<open>int\<close> truncates both to the same
  value. \<^verbatim>\<open>exit()\<close> is \<^verbatim>\<open>sys.exit\<close> without an argument: exit status 0.
\<close>

datatype message = NotDivisible | Parallelizing int | SerialMode

datatype outcome = Exit int | Raise | Proceed

definition py_int :: "real \<Rightarrow> int" where
  "py_int x = (if 0 \<le> x then \<lfloor>x\<rfloor> else \<lceil>x\<rceil>)"

definition startup_check :: "int \<Rightarrow> int \<Rightarrow> int \<Rightarrow> message list \<times> outcome" where
  "startup_check n mpi_size rank =
     (if mpi_size = 0 then ([], Raise)
      else
        let rows_per_proc = n div mpi_size in
        if rows_per_proc \<noteq> py_int (of_int n * 1 / of_int mpi_size) then
          (if rank = 0 then ([NotDivisible], Exit 0) else ([], Proceed))
        else if mpi_size > 1 then
          (if rank = 0 then ([Parallelizing mpi_size], Proceed) else ([], Proceed))
        else ([SerialMode], Proceed))"

text \<open>
  Lines 156 to 160 on all processes: every process builds a \<^verbatim>\<open>Life\<close> from its own random
  array (the list \<open>rnd\<close>, one array per rank), receives the grid of rank 0 and rebuilds
  its augmented grid.
\<close>

definition startup :: "nat \<Rightarrow> grid list \<Rightarrow> life list option" where
  "startup n rnd = do {
     games \<leftarrow> map_m (Life_init n) rnd;
     g0 \<leftarrow> bcast (map grid games) 0;
     map_m (\<lambda>game. do {
        aug \<leftarrow> form_aug_grid g0;
        Some (game\<lparr>grid := g0, aug_grid := aug\<rparr>)
      }) games
   }"

section \<open>Well-formed states\<close>

text \<open>
  The arrays of the program are square: \<open>N\<close> rows of \<open>N\<close> cells. A cell is dead (0) or
  alive (1). Between two generation steps the augmented grid is the padded grid.
\<close>

definition square :: "nat \<Rightarrow> grid \<Rightarrow> bool" where
  "square n g = (length g = n \<and> (\<forall>r\<in>set g. length r = n))"

definition binary :: "grid \<Rightarrow> bool" where
  "binary g = (\<forall>r\<in>set g. \<forall>x\<in>set r. x = 0 \<or> x = 1)"

definition aug_inv :: "life \<Rightarrow> bool" where
  "aug_inv st = (form_aug_grid (grid st) = Some (aug_grid st))"

definition wf_life :: "nat \<Rightarrow> life \<Rightarrow> bool" where
  "wf_life n st = (square n (grid st) \<and> aug_inv st)"

section \<open>Reference definitions of the specification\<close>

text \<open>
  The naive neighbour count of the specification: the eight cells around \<open>(row, col)\<close>,
  each found by explicit modulo-\<open>N\<close> indexing of the grid itself. The offsets are listed
  in the order in which \<^verbatim>\<open>neighbor_sum\<close> adds its eight summands.
\<close>

definition wrap_index :: "nat \<Rightarrow> nat \<Rightarrow> int \<Rightarrow> nat" where
  "wrap_index n i d = nat ((int i + d) mod int n)"

definition neighbor_offsets :: "(int \<times> int) list" where
  "neighbor_offsets = [(1, 1), (1, 0), (1, -1), (0, 1), (0, -1), (-1, 1), (-1, 0), (-1, -1)]"

definition naive_neighbor_sum :: "nat \<Rightarrow> grid \<Rightarrow> nat \<Rightarrow> nat \<Rightarrow> int" where
  "naive_neighbor_sum n g row col =
     (\<Sum>(dr, dc) \<leftarrow> neighbor_offsets. g ! wrap_index n row dr ! wrap_index n col dc)"

text \<open>
  The standard rule of the Game of Life, in the specification's words: a cell is alive in
  the next generation iff it is alive with 2 or 3 live neighbours, or dead with exactly 3.
  The standard generation step computes every next state from the grid before the step.
\<close>

definition gol_rule :: "int \<Rightarrow> int \<Rightarrow> int" where
  "gol_rule s c = (if (s = 1 \<and> (c = 2 \<or> c = 3)) \<or> (s = 0 \<and> c = 3) then 1 else 0)"

definition simultaneous_update :: "nat \<Rightarrow> grid \<Rightarrow> grid" where
  "simultaneous_update n g =
     map (\<lambda>row. map (\<lambda>col. gol_rule (g ! row ! col) (naive_neighbor_sum n g row col)) [0..<n])
       [0..<n]"

text \<open>
  The rows that the process of rank \<open>rank\<close> works on: those that pass the test
  \<^verbatim>\<open>row % mpi_size == rank\<close> of the loop over \<^verbatim>\<open>range(N)\<close>.
\<close>

definition owned_rows :: "nat \<Rightarrow> nat \<Rightarrow> nat \<Rightarrow> nat list" where
  "owned_rows n mpi_size rank = filter (\<lambda>row. owner row mpi_size = Some rank) [0..<n]"

section \<open>Functions used in the proofs\<close>

text \<open>
  What one execution of the loop body writes, as a function of the old cell and the
  neighbour count, and the grid that a pass over all cells produces when every count is
  taken from the grid before the pass.
\<close>

definition next_cell :: "int \<Rightarrow> int \<Rightarrow> int" where
  "next_cell s c = (if c = 3 then 1 else if c \<noteq> 2 then 0 else s)"

definition next_grid :: "nat \<Rightarrow> grid \<Rightarrow> grid" where
  "next_grid n g =
     map (\<lambda>row. map (\<lambda>col. next_cell (g ! row ! col) (naive_neighbor_sum n g row col)) [0..<n])
       [0..<n]"

text \<open>The effect of the loop body at one index on the grid, with the counts taken from \<open>g0\<close>.\<close>

definition upd :: "nat \<Rightarrow> grid \<Rightarrow> nat \<times> nat \<Rightarrow> grid \<Rightarrow> grid" where
  "upd n g0 rc g =
     g[fst rc := (g ! fst rc)[snd rc :=
        next_cell (g ! fst rc ! snd rc) (naive_neighbor_sum n g0 (fst rc) (snd rc))]]"

text \<open>The grid of one process after its local computation.\<close>

definition local_grid :: "nat \<Rightarrow> nat \<Rightarrow> nat \<Rightarrow> grid \<Rightarrow> grid" where
  "local_grid n mpi_size rank g =
     fold (upd n g) (List.product (owned_rows n mpi_size rank) [0..<n]) g"

text \<open>The exchange of one row on all processes, as a function.\<close>

definition xrow :: "nat \<Rightarrow> life list \<Rightarrow> life list" where
  "xrow row ws =
     map (\<lambda>st. st\<lparr>grid := (grid st)[row := grid (ws ! (row mod length ws)) ! row]\<rparr>) ws"

text \<open>
  The grid every process holds after the parallel step: row \<open>r\<close> is computed by its owner,
  from the owner's grid.
\<close>

definition para_grid :: "nat \<Rightarrow> life list \<Rightarrow> grid" where
  "para_grid n ws =
     map (\<lambda>r. map (\<lambda>c. next_cell (grid (ws ! (r mod length ws)) ! r ! c)
                      (naive_neighbor_sum n (grid (ws ! (r mod length ws))) r c)) [0..<n])
       [0..<n]"

section \<open>Test data\<close>

text \<open>
  The block still life: the cells of rows \<open>i\<close>, \<open>i + 1\<close> and columns \<open>j\<close>, \<open>j + 1\<close>
  (modulo \<open>n\<close>, so the block may lie across the seam of the torus) are alive, all others
  are dead.
\<close>

definition in_pair :: "nat \<Rightarrow> nat \<Rightarrow> nat \<Rightarrow> bool" where
  "in_pair n i r = (r = i \<or> r = (i + 1) mod n)"

definition block_grid :: "nat \<Rightarrow> nat \<Rightarrow> nat \<Rightarrow> grid" where
  "block_grid n i j =
     map (\<lambda>r. map (\<lambda>c. if in_pair n i r \<and> in_pair n j c then 1 else 0) [0..<n]) [0..<n]"

definition block_life :: life where
  "block_life = \<lparr>N = 4, grid = block_grid 4 1 1,
     aug_grid = map pad_wrap (pad_wrap (block_grid 4 1 1))\<rparr>"

text \<open>A grid of size 3, a process holding it, and three processes with different grids.\<close>

definition example_grid :: grid where
  "example_grid = [[0, 1, 0], [1, 1, 0], [0, 0, 1]]"

definition example_life :: life where
  "example_life = \<lparr>N = 3, grid = example_grid, aug_grid = map pad_wrap (pad_wrap example_grid)\<rparr>"

definition example_rnd :: "grid list" where
  "example_rnd = [example_grid, [[1, 1, 1], [0, 0, 0], [1, 0, 1]], [[0, 0, 0], [0, 1, 0], [0, 0, 0]]]"

definition example_world :: "life list" where
  "example_world =
     map (\<lambda>g. \<lparr>N = 3, grid = g, aug_grid = map pad_wrap (pad_wrap g)\<rparr>) example_rnd"

section \<open>Auxiliary lemmas\<close>

lemma pad_wrap_length: "length (pad_wrap xs) = length xs + 2"
  by (simp add: pad_wrap_def)

lemma pad_wrap_nth:
  assumes "xs \<noteq> []" and "i < length xs + 2"
  shows "pad_wrap xs ! i = xs ! ((i + length xs - 1) mod length xs)"
proof (cases i)
  case 0
  with assms show ?thesis
    by (simp add: pad_wrap_def last_conv_nth)
next
  case (Suc k)
  show ?thesis
  proof (cases "k < length xs")
    case True
    with Suc show ?thesis
      by (simp add: pad_wrap_def nth_append)
  next
    case False
    with Suc assms have "k = length xs" by simp
    with Suc assms show ?thesis
      by (simp add: pad_wrap_def nth_append hd_conv_nth)
  qed
qed

lemma form_aug_grid_Some:
  assumes "square n g" and "0 < n"
  shows "form_aug_grid g = Some (map pad_wrap (pad_wrap g))"
  using assms by (auto simp: form_aug_grid_def square_def)

lemma aug_nth:
  assumes "square n g" and "0 < n" and "i < n + 2" and "j < n + 2"
  shows "map pad_wrap (pad_wrap g) ! i ! j = g ! ((i + n - 1) mod n) ! ((j + n - 1) mod n)"
proof -
  from assms have ne: "g \<noteq> []" and len: "length g = n" by (auto simp: square_def)
  have i': "(i + n - 1) mod n < n" using assms by simp
  have row: "pad_wrap g ! i = g ! ((i + n - 1) mod n)"
    using pad_wrap_nth [OF ne] assms len by simp
  have "g ! ((i + n - 1) mod n) \<in> set g" using i' len by simp
  then have rl: "length (g ! ((i + n - 1) mod n)) = n" using assms by (simp add: square_def)
  then have rne: "g ! ((i + n - 1) mod n) \<noteq> []" using assms by auto
  have "map pad_wrap (pad_wrap g) ! i = pad_wrap (g ! ((i + n - 1) mod n))"
    using assms len row by (simp add: pad_wrap_length)
  then show ?thesis using pad_wrap_nth [OF rne, of j] rl assms by simp
qed

lemma aug_shape:
  assumes "square n g" and "0 < n"
  shows "square (n + 2) (map pad_wrap (pad_wrap g))"
proof -
  from assms have "g \<noteq> []" by (auto simp: square_def)
  then have "set (pad_wrap g) = set g"
    by (auto simp: pad_wrap_def)
  with assms show ?thesis
    by (simp add: square_def pad_wrap_length)
qed

lemma square_nth_length: "square n g \<Longrightarrow> i < n \<Longrightarrow> length (g ! i) = n"
  by (simp add: square_def)

lemma wrap_index_shift:
  assumes "0 < n" and "- 1 \<le> d"
  shows "wrap_index n i d = (i + nat (d + 1) + n - 1) mod n"
proof -
  have "int ((i + nat (d + 1) + n - 1) mod n) = (int i + d + int n) mod int n"
    using assms by (simp add: zmod_int algebra_simps)
  also have "\<dots> = (int i + d) mod int n" by simp
  finally show ?thesis by (simp add: wrap_index_def)
qed

lemma wrap_index_less: "0 < n \<Longrightarrow> wrap_index n i d < n"
  by (simp add: wrap_index_def nat_less_iff)

lemma aug_cell:
  assumes "square n g" and "0 < n" and "i < n" and "j < n" and "a \<le> 2" and "b \<le> 2"
  shows "cell (map pad_wrap (pad_wrap g)) (i + a) (j + b) =
           Some (g ! wrap_index n i (int a - 1) ! wrap_index n j (int b - 1))"
proof -
  let ?A = "map pad_wrap (pad_wrap g)"
  have sq: "square (n + 2) ?A" using assms aug_shape by simp
  have ia: "i + a < n + 2" and jb: "j + b < n + 2" using assms by auto
  have len: "length ?A = n + 2" using sq by (simp add: square_def)
  have rl: "length (?A ! (i + a)) = n + 2" using square_nth_length [OF sq ia] .
  have "cell ?A (i + a) (j + b) = Some (?A ! (i + a) ! (j + b))"
    using ia jb len rl by (simp add: cell_def nth_opt_def)
  also have "?A ! (i + a) ! (j + b) = g ! ((i + a + n - 1) mod n) ! ((j + b + n - 1) mod n)"
    using aug_nth [OF assms(1,2) ia jb] .
  also have "(i + a + n - 1) mod n = wrap_index n i (int a - 1)"
    using wrap_index_shift [of n "int a - 1" i] assms by simp
  also have "(j + b + n - 1) mod n = wrap_index n j (int b - 1)"
    using wrap_index_shift [of n "int b - 1" j] assms by simp
  finally show ?thesis .
qed

lemma neighbor_sum_eq:
  assumes "square n g" and "0 < n" and "row < n" and "col < n"
    and "aug_grid st = map pad_wrap (pad_wrap g)"
  shows "neighbor_sum st row col = Some (naive_neighbor_sum n g row col)"
proof -
  note c = aug_cell [OF assms(1-4)]
  show ?thesis
    using c [of 2 2] c [of 2 1] c [of 2 0] c [of 1 2] c [of 1 0] c [of 0 2] c [of 0 1] c [of 0 0]
    by (simp add: neighbor_sum_def assms(5) naive_neighbor_sum_def neighbor_offsets_def)
qed

lemma next_cell_idem: "next_cell (next_cell s c) c = next_cell s c"
  by (simp add: next_cell_def)

lemma update_cell_eq:
  assumes "square n g0" and "0 < n" and "row < n" and "col < n"
    and "aug_grid st = map pad_wrap (pad_wrap g0)" and "square n (grid st)"
  shows "update_cell row col st = Some (st\<lparr>grid := upd n g0 (row, col) (grid st)\<rparr>)"
proof -
  have ns: "neighbor_sum st row col = Some (naive_neighbor_sum n g0 row col)"
    using neighbor_sum_eq [OF assms(1-5)] .
  have len: "row < length (grid st)" "col < length (grid st ! row)"
    using assms by (simp_all add: square_def)
  show ?thesis
    using len by (simp add: update_cell_def ns set_cell_def upd_def next_cell_def)
qed

lemma square_upd:
  assumes "square n g"
  shows "square n (upd n g0 rc g)"
proof -
  have "length r = n" if "r \<in> set (upd n g0 rc g)" for r
  proof -
    from that obtain i where i: "i < length g" and r: "r = upd n g0 rc g ! i"
      by (auto simp: in_set_conv_nth upd_def)
    show ?thesis
      using i r assms by (cases "i = fst rc") (simp_all add: upd_def square_def)
  qed
  with assms show ?thesis by (simp add: square_def upd_def)
qed

lemma upd_nth:
  assumes "square n g" and "fst rc < n" and "snd rc < n" and "r < n" and "c < n"
  shows "upd n g0 rc g ! r ! c =
           (if (r, c) = rc then next_cell (g ! r ! c) (naive_neighbor_sum n g0 r c) else g ! r ! c)"
proof (cases "r = fst rc")
  case True
  with assms show ?thesis
    by (cases rc) (auto simp: upd_def square_def)
next
  case False
  with assms show ?thesis
    by (cases rc) (auto simp: upd_def square_def)
qed

lemma square_fold_upd: "square n g \<Longrightarrow> square n (fold (upd n g0) idxs g)"
  by (induction idxs arbitrary: g) (simp_all add: square_upd)

lemma fold_upd_nth:
  assumes "square n g" and "\<forall>rc\<in>set idxs. fst rc < n \<and> snd rc < n" and "r < n" and "c < n"
  shows "fold (upd n g0) idxs g ! r ! c =
           (if (r, c) \<in> set idxs then next_cell (g ! r ! c) (naive_neighbor_sum n g0 r c)
            else g ! r ! c)"
  using assms
proof (induction idxs arbitrary: g)
  case Nil
  then show ?case by simp
next
  case (Cons rc idxs)
  have sq: "square n (upd n g0 rc g)" using Cons.prems(1) by (rule square_upd)
  have rc: "fst rc < n" "snd rc < n" using Cons.prems(2) by simp_all
  have rest: "\<forall>rc\<in>set idxs. fst rc < n \<and> snd rc < n" using Cons.prems(2) by simp
  have step: "upd n g0 rc g ! r ! c =
      (if (r, c) = rc then next_cell (g ! r ! c) (naive_neighbor_sum n g0 r c) else g ! r ! c)"
    using upd_nth [OF Cons.prems(1) rc Cons.prems(3,4)] .
  have "fold (upd n g0) (rc # idxs) g ! r ! c = fold (upd n g0) idxs (upd n g0 rc g) ! r ! c"
    by simp
  also have "\<dots> = (if (r, c) \<in> set idxs
        then next_cell (upd n g0 rc g ! r ! c) (naive_neighbor_sum n g0 r c)
        else upd n g0 rc g ! r ! c)"
    using Cons.IH [OF sq rest Cons.prems(3,4)] .
  also have "\<dots> = (if (r, c) \<in> set (rc # idxs)
        then next_cell (g ! r ! c) (naive_neighbor_sum n g0 r c) else g ! r ! c)"
    by (simp add: step next_cell_idem)
  finally show ?case .
qed

lemma for_each_cells:
  assumes "square n g0" and "0 < n" and "aug_grid st = map pad_wrap (pad_wrap g0)"
    and "square n (grid st)" and "\<forall>rc\<in>set idxs. fst rc < n \<and> snd rc < n"
  shows "for_each idxs (\<lambda>(row, col). update_cell row col) st =
           Some (st\<lparr>grid := fold (upd n g0) idxs (grid st)\<rparr>)"
  using assms(3-5)
proof (induction idxs arbitrary: st)
  case Nil
  then show ?case by simp
next
  case (Cons rc idxs)
  obtain row col where rc: "rc = (row, col)" by (cases rc)
  with Cons.prems have rng: "row < n" "col < n" by simp_all
  let ?st1 = "st\<lparr>grid := upd n g0 (row, col) (grid st)\<rparr>"
  have one: "update_cell row col st = Some ?st1"
    using update_cell_eq [OF assms(1,2) rng Cons.prems(1,2)] .
  have "for_each idxs (\<lambda>(row, col). update_cell row col) ?st1 =
      Some (?st1\<lparr>grid := fold (upd n g0) idxs (grid ?st1)\<rparr>)"
    using Cons.prems by (intro Cons.IH) (simp_all add: square_upd)
  then show ?case by (simp add: rc one)
qed

lemma grid_eqI:
  assumes "square n g" and "square n h" and "\<And>r c. r < n \<Longrightarrow> c < n \<Longrightarrow> g ! r ! c = h ! r ! c"
  shows "g = h"
proof (rule nth_equalityI)
  show "length g = length h" using assms by (simp add: square_def)
next
  fix r assume "r < length g"
  then have r: "r < n" using assms by (simp add: square_def)
  show "g ! r = h ! r"
    using assms r by (intro nth_equalityI) (simp_all add: square_nth_length)
qed

lemma square_next_grid: "square n (next_grid n g)"
  by (auto simp: square_def next_grid_def)

lemma next_grid_nth:
  "r < n \<Longrightarrow> c < n \<Longrightarrow> next_grid n g ! r ! c = next_cell (g ! r ! c) (naive_neighbor_sum n g r c)"
  by (simp add: next_grid_def)

lemma shape_square: "square n g \<Longrightarrow> 0 < n \<Longrightarrow> shape g = (n, n)"
  by (auto simp: shape_def square_def)

text \<open>The serial pass over all cells.\<close>

lemma serial_pass:
  assumes "square n g" and "0 < n" and "grid st = g" and "aug_grid st = map pad_wrap (pad_wrap g)"
  shows "for_each (ndindex (shape (grid st))) (\<lambda>(row, col). update_cell row col) st =
           Some (st\<lparr>grid := next_grid n g\<rparr>)"
proof -
  let ?idxs = "List.product [0..<n] [0..<n]"
  have rng: "\<forall>rc\<in>set ?idxs. fst rc < n \<and> snd rc < n" by auto
  have sq: "square n (grid st)" using assms by simp
  have "fold (upd n g) ?idxs g = next_grid n g"
  proof (rule grid_eqI [where n = n])
    show "square n (fold (upd n g) ?idxs g)" using assms(1) by (rule square_fold_upd)
    show "square n (next_grid n g)" by (rule square_next_grid)
    fix r c assume "r < n" "c < n"
    then show "fold (upd n g) ?idxs g ! r ! c = next_grid n g ! r ! c"
      using fold_upd_nth [OF assms(1) rng, of r c g] by (simp add: next_grid_nth)
  qed
  then show ?thesis
    using for_each_cells [OF assms(1,2,4) sq rng] assms(1,2,3)
    by (simp add: ndindex_def shape_square)
qed

lemma update_eq:
  assumes "square n g" and "0 < n" and "grid st = g" and "aug_grid st = map pad_wrap (pad_wrap g)"
  shows "update st = Some (st\<lparr>grid := next_grid n g,
            aug_grid := map pad_wrap (pad_wrap (next_grid n g))\<rparr>)"
  using serial_pass [OF assms] form_aug_grid_Some [OF square_next_grid assms(2), of g]
  by (simp add: update_def)

lemma for_each_append:
  "for_each (xs @ ys) body s =
     (case for_each xs body s of None \<Rightarrow> None | Some s' \<Rightarrow> for_each ys body s')"
  by (induction xs arbitrary: s) (simp_all split: option.splits)

lemma for_each_filter:
  "for_each xs (\<lambda>x s. if P x then body x s else Some s) s = for_each (filter P xs) body s"
  by (induction xs arbitrary: s) (simp_all split: option.splits)

lemma for_each_map_Pair:
  "for_each (map (Pair r) cs) (\<lambda>(row, col). body row col) s = for_each cs (body r) s"
  by (induction cs arbitrary: s) (simp_all split: option.splits)

lemma for_each_product:
  "for_each rows (\<lambda>row. for_each cols (body row)) s =
     for_each (List.product rows cols) (\<lambda>(row, col). body row col) s"
  by (induction rows arbitrary: s)
    (simp_all add: for_each_append for_each_map_Pair split: option.splits)

lemma local_compute_owned_rows:
  assumes "0 < mpi_size"
  shows "local_compute n mpi_size rank st =
           for_each (List.product (owned_rows n mpi_size rank) [0..<n])
             (\<lambda>(row, col). update_cell row col) st"
proof -
  have "local_compute n mpi_size rank st =
      for_each [0..<n] (\<lambda>row s. if owner row mpi_size = Some rank
         then for_each [0..<n] (\<lambda>col. update_cell row col) s else Some s) st"
    using assms by (simp add: local_compute_def owner_def)
  then show ?thesis
    by (simp add: for_each_filter for_each_product owned_rows_def)
qed

lemma local_compute_eq:
  assumes "0 < n" and "0 < mpi_size" and "square n (grid st)"
    and "aug_grid st = map pad_wrap (pad_wrap (grid st))"
  shows "local_compute n mpi_size rank st =
           Some (st\<lparr>grid := local_grid n mpi_size rank (grid st)\<rparr>)"
proof -
  have rng: "\<forall>rc\<in>set (List.product (owned_rows n mpi_size rank) [0..<n]). fst rc < n \<and> snd rc < n"
    by (auto simp: owned_rows_def)
  show ?thesis
    using for_each_cells [OF assms(3,1,4,3) rng]
    by (simp add: local_compute_owned_rows [OF assms(2)] local_grid_def)
qed

lemma square_local_grid: "square n g \<Longrightarrow> square n (local_grid n mpi_size rank g)"
  by (simp add: local_grid_def square_fold_upd)

lemma local_grid_nth:
  assumes "square n g" and "0 < mpi_size" and "r < n" and "c < n"
  shows "local_grid n mpi_size rank g ! r ! c =
           (if r mod mpi_size = rank then next_cell (g ! r ! c) (naive_neighbor_sum n g r c)
            else g ! r ! c)"
proof -
  have rng: "\<forall>rc\<in>set (List.product (owned_rows n mpi_size rank) [0..<n]). fst rc < n \<and> snd rc < n"
    by (auto simp: owned_rows_def)
  show ?thesis
    using fold_upd_nth [OF assms(1) rng assms(3,4), of g] assms(2-4)
    by (auto simp: local_grid_def owned_rows_def owner_def)
qed

lemma map_m_Some:
  assumes "\<And>x. x \<in> set xs \<Longrightarrow> f x = Some (g x)"
  shows "map_m f xs = Some (map g xs)"
  using assms by (induction xs) simp_all

lemma exchange_row_eq:
  assumes "ws \<noteq> []" and "\<forall>st\<in>set ws. square n (grid st)" and "row < n"
  shows "exchange_row row ws = Some (xrow row ws)"
proof -
  have sent: "map_m (\<lambda>st. nth_opt (grid st) row) ws = Some (map (\<lambda>st. grid st ! row) ws)"
    using assms by (intro map_m_Some) (simp add: nth_opt_def square_def)
  have root: "row mod length ws < length ws" using assms(1) by simp
  then have "ws ! (row mod length ws) \<in> set ws" by simp
  then have len: "length (grid (ws ! (row mod length ws)) ! row) = n"
    using assms by (simp add: square_nth_length)
  have store: "map_m (assign_row row (grid (ws ! (row mod length ws)) ! row)) ws =
      Some (xrow row ws)"
    unfolding xrow_def using assms len
    by (intro map_m_Some) (simp add: assign_row_def square_def)
  have bc: "bcast (map (\<lambda>st. grid st ! row) ws) (row mod length ws) =
      Some (grid (ws ! (row mod length ws)) ! row)"
    using root by (simp add: bcast_def nth_opt_def)
  show ?thesis
    using assms(1) by (simp add: exchange_row_def sent owner_def bc store)
qed

lemma length_xrow: "length (xrow row ws) = length ws"
  by (simp add: xrow_def)

lemma square_xrow:
  assumes "ws \<noteq> []" and "\<forall>st\<in>set ws. square n (grid st)" and "row < n"
  shows "\<forall>st\<in>set (xrow row ws). square n (grid st)"
proof
  fix st' assume "st' \<in> set (xrow row ws)"
  then obtain st where st: "st \<in> set ws"
    and st': "st' = st\<lparr>grid := (grid st)[row := grid (ws ! (row mod length ws)) ! row]\<rparr>"
    by (auto simp: xrow_def)
  have "ws ! (row mod length ws) \<in> set ws" using assms(1) by simp
  then have len: "length (grid (ws ! (row mod length ws)) ! row) = n"
    using assms by (simp add: square_nth_length)
  have sq: "square n (grid st)" using assms st by simp
  have "length r = n" if "r \<in> set ((grid st)[row := grid (ws ! (row mod length ws)) ! row])" for r
    using that sq len by (auto simp: square_def dest!: set_update_subset_insert [THEN subsetD])
  with sq show "square n (grid st')" by (simp add: st' square_def)
qed

lemma for_each_exchange:
  assumes "ws \<noteq> []" and "\<forall>st\<in>set ws. square n (grid st)" and "\<forall>row\<in>set rows. row < n"
  shows "for_each rows exchange_row ws = Some (fold xrow rows ws)"
  using assms
proof (induction rows arbitrary: ws)
  case Nil
  then show ?case by simp
next
  case (Cons row rows)
  have one: "exchange_row row ws = Some (xrow row ws)"
    using exchange_row_eq [OF Cons.prems(1,2), of row] Cons.prems(3) by simp
  have ne: "xrow row ws \<noteq> []" using Cons.prems(1) by (simp add: xrow_def)
  have sq: "\<forall>st\<in>set (xrow row ws). square n (grid st)"
    using square_xrow [OF Cons.prems(1,2), of row] Cons.prems(3) by simp
  show ?case using Cons.IH [OF ne sq] Cons.prems(3) by (simp add: one)
qed

lemma fold_xrow:
  assumes "k < length ws"
  shows "length (fold xrow rows ws) = length ws \<and>
         (\<exists>G. fold xrow rows ws ! k = (ws ! k)\<lparr>grid := G\<rparr> \<and> length G = length (grid (ws ! k)) \<and>
            (\<forall>r < length G. G ! r =
               (if r \<in> set rows then grid (ws ! (r mod length ws)) ! r else grid (ws ! k) ! r)))"
  using assms
proof (induction rows arbitrary: ws)
  case Nil
  have "ws ! k = (ws ! k)\<lparr>grid := grid (ws ! k)\<rparr>" by simp
  then show ?case by (intro conjI exI [where x = "grid (ws ! k)"]) simp_all
next
  case (Cons row rows)
  let ?ws1 = "xrow row ws"
  let ?W = "length ws"
  have k1: "k < length ?ws1" using Cons.prems by (simp add: xrow_def)
  have g1: "grid (?ws1 ! j) = (grid (ws ! j))[row := grid (ws ! (row mod ?W)) ! row]"
    and s1: "?ws1 ! j = (ws ! j)\<lparr>grid := (grid (ws ! j))[row := grid (ws ! (row mod ?W)) ! row]\<rparr>"
    if "j < ?W" for j
    using that by (simp_all add: xrow_def)
  from Cons.IH [OF k1] obtain G where
    len: "length (fold xrow rows ?ws1) = length ?ws1"
    and G: "fold xrow rows ?ws1 ! k = (?ws1 ! k)\<lparr>grid := G\<rparr>"
    and lG: "length G = length (grid (?ws1 ! k))"
    and rows: "\<forall>r < length G. G ! r =
        (if r \<in> set rows then grid (?ws1 ! (r mod length ?ws1)) ! r else grid (?ws1 ! k) ! r)"
    by blast
  have W: "0 < ?W" using Cons.prems by auto
  have "G ! r = (if r \<in> set (row # rows) then grid (ws ! (r mod ?W)) ! r else grid (ws ! k) ! r)"
    if r: "r < length G" for r
  proof -
    have rl: "r < length (grid (ws ! k))" using r lG g1 [OF Cons.prems] by simp
    have m: "r mod ?W < ?W" using W by simp
    show ?thesis
    proof (cases "r \<in> set rows")
      case True
      then have "G ! r = grid (?ws1 ! (r mod ?W)) ! r"
        using rows r by (simp add: length_xrow)
      also have "\<dots> = (grid (ws ! (r mod ?W)))[row := grid (ws ! (row mod ?W)) ! row] ! r"
        using g1 [OF m] by simp
      also have "\<dots> = grid (ws ! (r mod ?W)) ! r"
        by (cases "r = row") simp_all
      finally show ?thesis using True by simp
    next
      case False
      then have "G ! r = grid (?ws1 ! k) ! r" using rows r by simp
      also have "\<dots> = (grid (ws ! k))[row := grid (ws ! (row mod ?W)) ! row] ! r"
        using g1 [OF Cons.prems] by simp
      also have "\<dots> = (if r = row then grid (ws ! (row mod ?W)) ! row else grid (ws ! k) ! r)"
        using rl by (simp add: nth_list_update)
      finally show ?thesis using False by simp
    qed
  qed
  moreover have "fold xrow (row # rows) ws ! k = (ws ! k)\<lparr>grid := G\<rparr>"
    using G s1 [OF Cons.prems] by simp
  moreover have "length G = length (grid (ws ! k))"
    using lG g1 [OF Cons.prems] by simp
  moreover have "length (fold xrow (row # rows) ws) = ?W"
    using len by (simp add: length_xrow)
  ultimately show ?case by blast
qed

lemma squareI:
  assumes "length g = n" and "\<And>i. i < n \<Longrightarrow> length (g ! i) = n"
  shows "square n g"
  using assms by (auto simp: square_def in_set_conv_nth)

lemma square_para_grid: "square n (para_grid n ws)"
  by (auto simp: square_def para_grid_def)

lemma para_grid_same:
  assumes "ws \<noteq> []" and "\<forall>st\<in>set ws. grid st = g"
  shows "para_grid n ws = next_grid n g"
proof -
  have "grid (ws ! (r mod length ws)) = g" for r
  proof -
    have "ws ! (r mod length ws) \<in> set ws" using assms(1) by simp
    with assms(2) show ?thesis by blast
  qed
  then show ?thesis by (simp add: para_grid_def next_grid_def)
qed

lemma update_para_eq:
  assumes "0 < n" and "ws \<noteq> []"
    and wf: "\<forall>st\<in>set ws. square n (grid st) \<and> aug_grid st = map pad_wrap (pad_wrap (grid st))"
  shows "update_para_1d_dec n ws =
           Some (map (\<lambda>st. st\<lparr>grid := para_grid n ws,
                              aug_grid := map pad_wrap (pad_wrap (para_grid n ws))\<rparr>) ws)"
proof -
  define W where "W = length ws"
  define loc where "loc = (\<lambda>(rank, st::life). st\<lparr>grid := local_grid n W rank (grid st)\<rparr>)"
  define ws1 where "ws1 = map loc (enumerate 0 ws)"
  define ws2 where "ws2 = fold xrow [0..<n] ws1"
  define P where "P = para_grid n ws"
  have W: "0 < W" using assms(2) by (simp add: W_def)
  have sqk: "square n (grid (ws ! k))" if "k < W" for k
    using wf that by (simp add: W_def)
  have a: "map_m (\<lambda>(rank, st). local_compute n W rank st) (enumerate 0 ws) = Some ws1"
    unfolding ws1_def
  proof (rule map_m_Some)
    fix x assume "x \<in> set (enumerate 0 ws)"
    then have "fst x < length ws" "ws ! fst x = snd x"
      by (simp_all add: in_set_enumerate_eq)
    then have "snd x \<in> set ws" using nth_mem [of "fst x" ws] by simp
    then have "square n (grid (snd x))" "aug_grid (snd x) = map pad_wrap (pad_wrap (grid (snd x)))"
      using wf by simp_all
    then show "(\<lambda>(rank, st). local_compute n W rank st) x = Some (loc x)"
      using local_compute_eq [OF assms(1) W, of "snd x" "fst x"]
      by (simp add: case_prod_beta loc_def)
  qed
  have l1: "length ws1 = W" by (simp add: ws1_def W_def)
  have n1: "ws1 ! k = (ws ! k)\<lparr>grid := local_grid n W k (grid (ws ! k))\<rparr>" if "k < W" for k
    using that by (simp add: ws1_def W_def loc_def nth_enumerate_eq)
  have sq1: "\<forall>st\<in>set ws1. square n (grid st)"
  proof
    fix st assume "st \<in> set ws1"
    then obtain k where k: "k < W" and st: "st = ws1 ! k"
      unfolding in_set_conv_nth l1 by blast
    show "square n (grid st)"
      unfolding st n1 [OF k] using sqk [OF k] by (simp add: square_local_grid)
  qed
  have ne1: "ws1 \<noteq> []" using W l1 by auto
  have b: "for_each [0..<n] exchange_row ws1 = Some ws2"
    unfolding ws2_def using for_each_exchange [OF ne1 sq1, of "[0..<n]"] by simp
  have l2: "length ws2 = W"
    unfolding ws2_def using fold_xrow [of 0 ws1 "[0..<n]"] W l1 by simp
  have n2: "ws2 ! k = (ws ! k)\<lparr>grid := P\<rparr>" if k: "k < W" for k
  proof -
    have k1: "k < length ws1" using k l1 by simp
    from fold_xrow [OF k1, of "[0..<n]"] obtain G where
      G: "ws2 ! k = (ws1 ! k)\<lparr>grid := G\<rparr>"
      and lG: "length G = length (grid (ws1 ! k))"
      and rows: "\<forall>r < length G. G ! r =
        (if r \<in> set [0..<n] then grid (ws1 ! (r mod length ws1)) ! r else grid (ws1 ! k) ! r)"
      unfolding ws2_def by blast
    have lGn: "length G = n"
      using lG n1 [OF k] square_local_grid [OF sqk [OF k]] by (simp add: square_def)
    have row: "G ! r = local_grid n W (r mod W) (grid (ws ! (r mod W))) ! r" if r: "r < n" for r
    proof -
      have m: "r mod W < W" using W by simp
      have "G ! r = grid (ws1 ! (r mod W)) ! r"
        using rows r lGn l1 by simp
      then show ?thesis by (simp add: n1 [OF m])
    qed
    have "G = P"
    proof (rule grid_eqI [where n = n])
      show "square n G"
      proof (rule squareI [OF lGn])
        fix i assume i: "i < n"
        have m: "i mod W < W" using W by simp
        have "square n (local_grid n W (i mod W) (grid (ws ! (i mod W))))"
          using sqk [OF m] by (rule square_local_grid)
        then show "length (G ! i) = n" using row [OF i] i by (simp add: square_nth_length)
      qed
      show "square n P" unfolding P_def by (rule square_para_grid)
      fix r c assume rc: "r < n" "c < n"
      have m: "r mod W < W" using W by simp
      show "G ! r ! c = P ! r ! c"
        using row [OF rc(1)] local_grid_nth [OF sqk [OF m] W rc, of "r mod W"] rc
        by (simp add: para_grid_def P_def W_def)
    qed
    then show ?thesis using G n1 [OF k] by simp
  qed
  have ws2: "ws2 = map (\<lambda>st. st\<lparr>grid := P\<rparr>) ws"
  proof (rule nth_equalityI)
    show "length ws2 = length (map (\<lambda>st. st\<lparr>grid := P\<rparr>) ws)"
      using l2 by (simp add: W_def)
    fix k assume "k < length ws2"
    then have k: "k < W" using l2 by simp
    then show "ws2 ! k = map (\<lambda>st. st\<lparr>grid := P\<rparr>) ws ! k"
      using n2 [OF k] by (simp add: W_def)
  qed
  have st0: "nth_opt ws2 0 = Some ((ws ! 0)\<lparr>grid := P\<rparr>)"
    using W l2 n2 [OF W] by (simp add: nth_opt_def)
  have aug: "form_aug_grid P = Some (map pad_wrap (pad_wrap P))"
    unfolding P_def using form_aug_grid_Some [OF square_para_grid assms(1)] .
  have "update_para_1d_dec n ws = Some (map (\<lambda>st. st\<lparr>aug_grid := map pad_wrap (pad_wrap P)\<rparr>) ws2)"
    unfolding update_para_1d_dec_def using a b st0 aug by (simp add: W_def)
  then show ?thesis by (simp add: ws2 P_def)
qed

lemma wf_life_aug:
  assumes "0 < n"
  shows "wf_life n st \<longleftrightarrow> square n (grid st) \<and> aug_grid st = map pad_wrap (pad_wrap (grid st))"
  using form_aug_grid_Some [OF _ assms, of "grid st"]
  by (auto simp: wf_life_def aug_inv_def)

lemma update_wf:
  assumes "0 < n" and "wf_life n st"
  shows "update st = Some (st\<lparr>grid := next_grid n (grid st),
            aug_grid := map pad_wrap (pad_wrap (next_grid n (grid st)))\<rparr>)"
  using assms update_eq [of n "grid st" st] by (simp add: wf_life_aug)

lemma wf_life_next:
  assumes "0 < n"
  shows "wf_life n (st\<lparr>grid := next_grid n g, aug_grid := map pad_wrap (pad_wrap (next_grid n g))\<rparr>)"
  using assms by (simp add: wf_life_aug square_next_grid)

lemma update_para_same:
  assumes "0 < n" and "ws \<noteq> []" and "\<forall>st\<in>set ws. grid st = g \<and> wf_life n st"
  shows "update_para_1d_dec n ws =
           Some (map (\<lambda>st. st\<lparr>grid := next_grid n g,
                              aug_grid := map pad_wrap (pad_wrap (next_grid n g))\<rparr>) ws)"
proof -
  have wf: "\<forall>st\<in>set ws. square n (grid st) \<and> aug_grid st = map pad_wrap (pad_wrap (grid st))"
    using assms(3) by (auto simp: wf_life_aug [OF assms(1)])
  have "para_grid n ws = next_grid n g"
    using assms by (intro para_grid_same) simp_all
  then show ?thesis using update_para_eq [OF assms(1,2) wf] by simp
qed

lemma repeat_update:
  assumes "0 < n" and "wf_life n st"
  shows "\<exists>st'. repeat_m k update st = Some st' \<and> wf_life n st' \<and>
           grid st' = (next_grid n ^^ k) (grid st)"
  using assms(2)
proof (induction k arbitrary: st)
  case 0
  then show ?case by simp
next
  case (Suc k)
  let ?st1 = "st\<lparr>grid := next_grid n (grid st),
            aug_grid := map pad_wrap (pad_wrap (next_grid n (grid st)))\<rparr>"
  have one: "update st = Some ?st1" using update_wf [OF assms(1) Suc.prems] .
  have "wf_life n ?st1" using wf_life_next [OF assms(1)] .
  from Suc.IH [OF this] obtain st' where
    "repeat_m k update ?st1 = Some st'" "wf_life n st'"
    "grid st' = (next_grid n ^^ k) (grid ?st1)" by blast
  then show ?case by (simp add: one funpow_swap1)
qed

lemma repeat_update_para:
  assumes "0 < n" and "ws \<noteq> []" and "\<forall>st\<in>set ws. grid st = g \<and> wf_life n st"
  shows "\<exists>ws'. repeat_m k (update_para_1d_dec n) ws = Some ws' \<and> length ws' = length ws \<and>
           (\<forall>st\<in>set ws'. grid st = (next_grid n ^^ k) g \<and> wf_life n st)"
  using assms(2,3)
proof (induction k arbitrary: ws g)
  case 0
  then show ?case by simp
next
  case (Suc k)
  let ?g1 = "next_grid n g"
  let ?ws1 = "map (\<lambda>st. st\<lparr>grid := ?g1, aug_grid := map pad_wrap (pad_wrap ?g1)\<rparr>) ws"
  have one: "update_para_1d_dec n ws = Some ?ws1"
    using update_para_same [OF assms(1) Suc.prems] .
  have ne: "?ws1 \<noteq> []" using Suc.prems(1) by simp
  have wf1: "\<forall>st\<in>set ?ws1. grid st = ?g1 \<and> wf_life n st"
    using wf_life_next [OF assms(1)] by auto
  from Suc.IH [OF ne wf1] obtain ws' where
    "repeat_m k (update_para_1d_dec n) ?ws1 = Some ws'" "length ws' = length ?ws1"
    "\<forall>st\<in>set ws'. grid st = (next_grid n ^^ k) ?g1 \<and> wf_life n st" by blast
  then show ?case by (simp add: one funpow_swap1)
qed

lemma Life_init_eq:
  assumes "0 < n" and "square n g"
  shows "Life_init n g = Some \<lparr>N = n, grid = g, aug_grid = map pad_wrap (pad_wrap g)\<rparr>"
  using form_aug_grid_Some [OF assms(2,1)] by (simp add: Life_init_def)

lemma startup_eq:
  assumes "0 < n" and "rnd \<noteq> []" and "\<forall>g\<in>set rnd. square n g"
  shows "startup n rnd =
           Some (map (\<lambda>g. \<lparr>N = n, grid = hd rnd, aug_grid = map pad_wrap (pad_wrap (hd rnd))\<rparr>) rnd)"
proof -
  let ?games = "map (\<lambda>g. \<lparr>N = n, grid = g, aug_grid = map pad_wrap (pad_wrap g)\<rparr>) rnd"
  have games: "map_m (Life_init n) rnd = Some ?games"
    using assms by (intro map_m_Some) (simp add: Life_init_eq)
  have g0: "bcast (map grid ?games) 0 = Some (hd rnd)" "bcast rnd 0 = Some (hd rnd)"
    using assms(2) by (simp_all add: bcast_def nth_opt_def hd_conv_nth)
  have "square n (hd rnd)" using assms(2,3) by simp
  then have aug: "form_aug_grid (hd rnd) = Some (map pad_wrap (pad_wrap (hd rnd)))"
    using form_aug_grid_Some assms(1) by simp
  have "map_m (\<lambda>game. do {
        aug \<leftarrow> form_aug_grid (hd rnd);
        Some (game\<lparr>grid := hd rnd, aug_grid := aug\<rparr>)
      }) ?games = Some (map (\<lambda>game. game\<lparr>grid := hd rnd,
          aug_grid := map pad_wrap (pad_wrap (hd rnd))\<rparr>) ?games)"
    by (intro map_m_Some) (simp add: aug)
  then show ?thesis
    unfolding startup_def games by (simp add: g0 comp_def)
qed

lemma wrap_index_cases:
  assumes "0 < n" and "r < n"
  shows "wrap_index n r (- 1) = (if r = 0 then n - 1 else r - 1)"
    and "wrap_index n r 0 = r"
    and "wrap_index n r 1 = (if r + 1 = n then 0 else r + 1)"
proof -
  show "wrap_index n r (- 1) = (if r = 0 then n - 1 else r - 1)"
    using wrap_index_shift [of n "- 1" r] assms by (auto simp: mod_if)
  show "wrap_index n r 0 = r"
    using assms by (simp add: wrap_index_def)
  show "wrap_index n r 1 = (if r + 1 = n then 0 else r + 1)"
    using wrap_index_shift [of n 1 r] assms by (auto simp: mod_if)
qed

lemma in_pair_cases:
  assumes "i < n"
  shows "in_pair n i r \<longleftrightarrow> r = i \<or> r = (if i + 1 = n then 0 else i + 1)"
  using assms by (auto simp: in_pair_def mod_if)

lemma block_1d:
  assumes "4 \<le> n" and "i < n" and "r < n"
  shows "in_pair n i r \<Longrightarrow>
           in_pair n i (wrap_index n r (- 1)) \<noteq> in_pair n i (wrap_index n r 1)"
    and "\<not> in_pair n i r \<Longrightarrow>
           \<not> (in_pair n i (wrap_index n r (- 1)) \<and> in_pair n i (wrap_index n r 1))"
  using assms
  by (auto simp: wrap_index_cases in_pair_cases split: if_splits)

lemma block_grid_nth:
  "r < n \<Longrightarrow> c < n \<Longrightarrow>
     block_grid n i j ! r ! c = (if in_pair n i r \<and> in_pair n j c then 1 else 0)"
  by (simp add: block_grid_def)

lemma square_block_grid: "square n (block_grid n i j)"
  by (auto simp: square_def block_grid_def)

lemma block_cell:
  assumes "4 \<le> n" and "i < n" and "j < n" and "r < n" and "c < n"
  shows "next_cell (block_grid n i j ! r ! c) (naive_neighbor_sum n (block_grid n i j) r c) =
           block_grid n i j ! r ! c"
proof -
  have n: "0 < n" using assms by simp
  define rp where "rp = wrap_index n r (- 1)"
  define rq where "rq = wrap_index n r 1"
  define cp where "cp = wrap_index n c (- 1)"
  define cq where "cq = wrap_index n c 1"
  have lt: "rp < n" "rq < n" "cp < n" "cq < n"
    using n by (simp_all add: rp_def rq_def cp_def cq_def wrap_index_less)
  have r0: "wrap_index n r 0 = r" and c0: "wrap_index n c 0 = c"
    using wrap_index_cases(2) n assms by simp_all
  note B = block_grid_nth [of _ n _ i j]
  have sum: "naive_neighbor_sum n (block_grid n i j) r c =
      (if in_pair n i rq \<and> in_pair n j cq then 1 else 0) +
      (if in_pair n i rq \<and> in_pair n j c then 1 else 0) +
      (if in_pair n i rq \<and> in_pair n j cp then 1 else 0) +
      (if in_pair n i r \<and> in_pair n j cq then 1 else 0) +
      (if in_pair n i r \<and> in_pair n j cp then 1 else 0) +
      (if in_pair n i rp \<and> in_pair n j cq then 1 else 0) +
      (if in_pair n i rp \<and> in_pair n j c then 1 else 0) +
      (if in_pair n i rp \<and> in_pair n j cp then (1::int) else 0)"
    unfolding naive_neighbor_sum_def neighbor_offsets_def
    using lt assms(4,5) B
    by (simp add: r0 c0 rp_def [symmetric] rq_def [symmetric] cp_def [symmetric] cq_def [symmetric])
  have rows: "in_pair n i r \<Longrightarrow> in_pair n i rp \<noteq> in_pair n i rq"
    "\<not> in_pair n i r \<Longrightarrow> \<not> (in_pair n i rp \<and> in_pair n i rq)"
    unfolding rp_def rq_def using block_1d [OF assms(1,2,4)] by blast+
  have cols: "in_pair n j c \<Longrightarrow> in_pair n j cp \<noteq> in_pair n j cq"
    "\<not> in_pair n j c \<Longrightarrow> \<not> (in_pair n j cp \<and> in_pair n j cq)"
    unfolding cp_def cq_def using block_1d [OF assms(1,3,5)] by blast+
  show ?thesis
    unfolding sum B [OF assms(4,5)] next_cell_def
    using rows cols
    by (cases "in_pair n i r"; cases "in_pair n i rp"; cases "in_pair n i rq";
        cases "in_pair n j c"; cases "in_pair n j cp"; cases "in_pair n j cq") simp_all
qed

lemma block_fixed:
  assumes "4 \<le> n" and "i < n" and "j < n"
  shows "next_grid n (block_grid n i j) = block_grid n i j"
  using block_cell [OF assms]
  by (intro grid_eqI [where n = n]) (simp_all add: square_next_grid square_block_grid next_grid_nth)

lemma owned_rows_eq:
  "0 < w \<Longrightarrow> owned_rows n w r = filter (\<lambda>row. row mod w = r) [0..<n]"
  by (simp add: owned_rows_def owner_def)

lemma filter_eq_upt: "r < w \<Longrightarrow> filter (\<lambda>x. x = r) [0..<w] = [r]"
proof (induction w)
  case 0
  then show ?case by simp
next
  case (Suc w)
  show ?case
  proof (cases "r = w")
    case True
    have "filter (\<lambda>x. x = w) [0..<w] = []" by (simp add: filter_empty_conv)
    with True show ?thesis by simp
  next
    case False
    with Suc show ?thesis by simp
  qed
qed

lemma filter_mod_block:
  assumes "r < w"
  shows "filter (\<lambda>row. row mod w = r) [k * w..<k * w + w] = [k * w + r]"
proof -
  have "[k * w..<k * w + w] = map (\<lambda>x. x + k * w) [0..<w]"
    by (simp add: map_add_upt add.commute)
  then have "filter (\<lambda>row. row mod w = r) [k * w..<k * w + w] =
      map (\<lambda>x. x + k * w) (filter (\<lambda>x. x mod w = r) [0..<w])"
    by (simp add: filter_map comp_def)
  also have "filter (\<lambda>x. x mod w = r) [0..<w] = filter (\<lambda>x. x = r) [0..<w]"
    by (rule filter_cong) simp_all
  finally show ?thesis using assms by (simp add: filter_eq_upt add.commute)
qed

lemma length_owned_multiple:
  assumes "r < w"
  shows "length (filter (\<lambda>row. row mod w = r) [0..<k * w]) = k"
proof (induction k)
  case 0
  then show ?case by simp
next
  case (Suc k)
  have "[0..<Suc k * w] = [0..<k * w] @ [k * w..<k * w + w]"
    using upt_add_eq_append [of 0 "k * w" w] by (simp add: add.commute)
  then show ?case using Suc filter_mod_block [OF assms, of k] by simp
qed

lemma length_owned_rows:
  assumes "0 < w" and "n mod w = 0" and "r < w"
  shows "length (owned_rows n w r) = n div w"
proof -
  from assms(2) have "n = (n div w) * w" by auto
  then show ?thesis
    using length_owned_multiple [OF assms(3), of "n div w"] assms(1)
    by (simp add: owned_rows_eq)
qed

lemma binary_nth:
  assumes "binary g" and "r < length g" and "c < length (g ! r)"
  shows "g ! r ! c = 0 \<or> g ! r ! c = 1"
proof -
  have "g ! r \<in> set g" using assms(2) by simp
  moreover have "g ! r ! c \<in> set (g ! r)" using assms(3) by simp
  ultimately show ?thesis using assms(1) unfolding binary_def by blast
qed

lemma binaryI:
  assumes "square n g" and "\<And>r c. r < n \<Longrightarrow> c < n \<Longrightarrow> g ! r ! c = 0 \<or> g ! r ! c = 1"
  shows "binary g"
  unfolding binary_def
proof (intro ballI)
  fix row x assume "row \<in> set g" "x \<in> set row"
  then obtain r c where "r < length g" "row = g ! r" "c < length row" "x = row ! c"
    unfolding in_set_conv_nth by blast
  then show "x = 0 \<or> x = 1"
    using assms by (simp add: square_def)
qed

lemma next_cell_binary: "s = 0 \<or> s = 1 \<Longrightarrow> next_cell s c = 0 \<or> next_cell s c = 1"
  by (auto simp: next_cell_def)

lemma next_cell_gol: "s = 0 \<or> s = 1 \<Longrightarrow> next_cell s c = gol_rule s c"
  by (auto simp: next_cell_def gol_rule_def)

lemma binary_next_grid:
  assumes "square n g" and "binary g"
  shows "binary (next_grid n g)"
proof (rule binaryI [OF square_next_grid])
  fix r c assume rc: "r < n" "c < n"
  have "g ! r ! c = 0 \<or> g ! r ! c = 1"
    using binary_nth [OF assms(2), of r c] assms(1) rc by (simp add: square_def)
  then show "next_grid n g ! r ! c = 0 \<or> next_grid n g ! r ! c = 1"
    using rc by (simp add: next_grid_nth next_cell_binary)
qed

lemma next_grid_simultaneous:
  assumes "square n g" and "binary g"
  shows "next_grid n g = simultaneous_update n g"
proof (rule grid_eqI [where n = n])
  show "square n (next_grid n g)" by (rule square_next_grid)
  show "square n (simultaneous_update n g)" by (auto simp: square_def simultaneous_update_def)
  fix r c assume rc: "r < n" "c < n"
  have "g ! r ! c = 0 \<or> g ! r ! c = 1"
    using binary_nth [OF assms(2), of r c] assms(1) rc by (simp add: square_def)
  then show "next_grid n g ! r ! c = simultaneous_update n g ! r ! c"
    using rc by (simp add: next_grid_nth simultaneous_update_def next_cell_gol)
qed

lemma binary_funpow_next_grid:
  assumes "square n g" and "binary g"
  shows "square n ((next_grid n ^^ k) g) \<and> binary ((next_grid n ^^ k) g)"
  using assms by (induction k) (simp_all add: square_next_grid binary_next_grid)

lemma naive_neighbor_sum_bounds:
  assumes "square n g" and "binary g" and "0 < n"
  shows "0 \<le> naive_neighbor_sum n g r c \<and> naive_neighbor_sum n g r c \<le> 8"
proof -
  have b: "0 \<le> g ! wrap_index n r dr ! wrap_index n c dc \<and>
      g ! wrap_index n r dr ! wrap_index n c dc \<le> 1" for dr dc
  proof -
    have "g ! wrap_index n r dr ! wrap_index n c dc = 0 \<or>
        g ! wrap_index n r dr ! wrap_index n c dc = 1"
      using binary_nth [OF assms(2), of "wrap_index n r dr" "wrap_index n c dc"] assms(1,3)
      by (simp add: square_def wrap_index_less)
    then show ?thesis by auto
  qed
  have "naive_neighbor_sum n g r c =
      g ! wrap_index n r 1 ! wrap_index n c 1 + g ! wrap_index n r 1 ! wrap_index n c 0 +
      g ! wrap_index n r 1 ! wrap_index n c (- 1) + g ! wrap_index n r 0 ! wrap_index n c 1 +
      g ! wrap_index n r 0 ! wrap_index n c (- 1) + g ! wrap_index n r (- 1) ! wrap_index n c 1 +
      g ! wrap_index n r (- 1) ! wrap_index n c 0 +
      g ! wrap_index n r (- 1) ! wrap_index n c (- 1)"
    by (simp add: naive_neighbor_sum_def neighbor_offsets_def)
  then show ?thesis
    using b [of 1 1] b [of 1 0] b [of 1 "- 1"] b [of 0 1] b [of 0 "- 1"]
      b [of "- 1" 1] b [of "- 1" 0] b [of "- 1" "- 1"]
    by linarith
qed

lemma binary_para_grid:
  assumes "ws \<noteq> []" and "\<forall>st\<in>set ws. square n (grid st) \<and> binary (grid st)"
  shows "binary (para_grid n ws)"
proof (rule binaryI [OF square_para_grid])
  fix r c assume rc: "r < n" "c < n"
  let ?g = "grid (ws ! (r mod length ws))"
  have "ws ! (r mod length ws) \<in> set ws" using assms(1) by simp
  then have "square n ?g" "binary ?g" using assms(2) by simp_all
  then have "?g ! r ! c = 0 \<or> ?g ! r ! c = 1"
    using binary_nth [of ?g r c] rc by (simp add: square_def)
  then show "para_grid n ws ! r ! c = 0 \<or> para_grid n ws ! r ! c = 1"
    using rc by (simp add: para_grid_def next_cell_binary)
qed

lemma startup_check_proceeds:
  assumes "0 < w" and "0 \<le> n"
  shows "snd (startup_check n w rank) = Proceed"
proof -
  have "py_int (of_int n * 1 / of_int w) = n div w"
    using assms by (simp add: py_int_def floor_divide_of_int_eq)
  then show ?thesis using assms by (simp add: startup_check_def)
qed

lemma square_example_grid: "square 3 example_grid"
  by (simp add: square_def example_grid_def)

lemma binary_example_grid: "binary example_grid"
  by (simp add: binary_def example_grid_def)

lemma wf_example_life: "wf_life 3 example_life"
  using square_example_grid by (simp add: wf_life_aug example_life_def)

lemma square_example_rnd: "\<forall>g\<in>set example_rnd. square 3 g"
  by (simp add: example_rnd_def square_def example_grid_def)

lemma wf_block_life: "wf_life 4 block_life"
  by (simp add: wf_life_aug block_life_def square_block_grid)

lemma aug_inv_eq:
  assumes "0 < n" and "square n (grid st)" and "aug_inv st"
  shows "aug_grid st = map pad_wrap (pad_wrap (grid st))"
proof -
  have "wf_life n st" using assms(2,3) by (simp add: wf_life_def)
  then show ?thesis using wf_life_aug [OF assms(1)] by simp
qed

lemma wf_life_para_next:
  assumes "0 < n"
  shows "wf_life n (st\<lparr>grid := para_grid n ws,
           aug_grid := map pad_wrap (pad_wrap (para_grid n ws))\<rparr>)"
  using assms by (simp add: wf_life_aug square_para_grid)

lemma update_para_wf:
  assumes "0 < n" and "ws \<noteq> []" and "\<forall>st\<in>set ws. wf_life n st"
  shows "update_para_1d_dec n ws =
           Some (map (\<lambda>st. st\<lparr>grid := para_grid n ws,
                              aug_grid := map pad_wrap (pad_wrap (para_grid n ws))\<rparr>) ws)"
proof -
  have "\<forall>st\<in>set ws. square n (grid st) \<and> aug_grid st = map pad_wrap (pad_wrap (grid st))"
    using assms(3) by (auto simp: wf_life_aug [OF assms(1)])
  then show ?thesis using update_para_eq [OF assms(1,2)] by simp
qed

lemma repeat_update_para_binary:
  assumes "0 < n" and "ws \<noteq> []" and "\<forall>st\<in>set ws. wf_life n st \<and> binary (grid st)"
  shows "\<exists>ws'. repeat_m k (update_para_1d_dec n) ws = Some ws' \<and> length ws' = length ws \<and>
           (\<forall>st\<in>set ws'. wf_life n st \<and> binary (grid st))"
  using assms(2,3)
proof (induction k arbitrary: ws)
  case 0
  then show ?case by simp
next
  case (Suc k)
  let ?P = "para_grid n ws"
  let ?ws1 = "map (\<lambda>st. st\<lparr>grid := ?P, aug_grid := map pad_wrap (pad_wrap ?P)\<rparr>) ws"
  have wf: "\<forall>st\<in>set ws. wf_life n st" using Suc.prems(2) by simp
  have one: "update_para_1d_dec n ws = Some ?ws1"
    using update_para_wf [OF assms(1) Suc.prems(1) wf] .
  have "\<forall>st\<in>set ws. square n (grid st) \<and> binary (grid st)"
    using Suc.prems(2) by (simp add: wf_life_def)
  then have bin: "binary ?P" using binary_para_grid [OF Suc.prems(1)] by simp
  have ne: "?ws1 \<noteq> []" using Suc.prems(1) by simp
  have wf1: "\<forall>st\<in>set ?ws1. wf_life n st \<and> binary (grid st)"
    using wf_life_para_next [OF assms(1)] bin by auto
  from Suc.IH [OF ne wf1] obtain ws' where
    "repeat_m k (update_para_1d_dec n) ?ws1 = Some ws'" "length ws' = length ?ws1"
    "\<forall>st\<in>set ws'. wf_life n st \<and> binary (grid st)" by blast
  then show ?case by (simp add: one)
qed

lemma binary_example_rnd: "\<forall>g\<in>set example_rnd. binary g"
  by (simp add: example_rnd_def binary_def example_grid_def)

lemma wf_example_world: "\<forall>st\<in>set example_world. square 3 (grid st) \<and> aug_inv st"
  using square_example_rnd form_aug_grid_Some [of 3]
  by (auto simp: example_world_def aug_inv_def)

section \<open>The properties of the specification\<close>

text \<open>
  C3 (wrap correctness). For every grid size \<open>n \<ge> 3\<close>, every \<open>n \<times> n\<close> grid of cells
  0 and 1 whose augmented grid is \<^verbatim>\<open>form_aug_grid(grid)\<close>, and every \<open>row, col < n\<close>,
  \<^verbatim>\<open>neighbor_sum(row, col)\<close> returns the sum of the eight neighbours found by explicit
  modulo-\<open>n\<close> indexing of the grid.
\<close>

theorem neighbor_sum_wrap_correct:
  assumes "3 \<le> n" and "square n (grid st)" and "binary (grid st)" and "aug_inv st"
    and "row < n" and "col < n"
  shows "neighbor_sum st row col = Some (naive_neighbor_sum n (grid st) row col)"
proof -
  have n: "0 < n" using assms(1) by simp
  have "aug_grid st = map pad_wrap (pad_wrap (grid st))"
    using aug_inv_eq [OF n assms(2,4)] .
  then show ?thesis using neighbor_sum_eq [OF assms(2) n assms(5,6)] by simp
qed

theorem neighbor_sum_wrap_correct_witness:
  "neighbor_sum example_life 0 2 = Some (naive_neighbor_sum 3 (grid example_life) 0 2)"
proof -
  have 1: "square 3 (grid example_life)" using square_example_grid by (simp add: example_life_def)
  have 2: "binary (grid example_life)" using binary_example_grid by (simp add: example_life_def)
  have 3: "aug_inv example_life" using wf_example_life by (simp add: wf_life_def)
  show ?thesis by (rule neighbor_sum_wrap_correct [OF _ 1 2 3]) simp_all
qed

text \<open>
  C4 (fixed snapshot). A call of the serial \<^verbatim>\<open>update\<close> reads its neighbour counts only
  from the augmented grid built before the pass, which the writes to the grid during the
  pass do not change. So for every well-formed starting state the call returns, and the
  new grid is the standard simultaneous step of the Game of Life applied to the grid
  before the call; the augmented grid is rebuilt from the new grid.
\<close>

theorem update_is_simultaneous:
  assumes "0 < n" and "square n (grid st)" and "binary (grid st)" and "aug_inv st"
  shows "\<exists>st'. update st = Some st' \<and> grid st' = simultaneous_update n (grid st) \<and> aug_inv st'"
proof -
  have wf: "wf_life n st" using assms by (simp add: wf_life_def)
  let ?st' = "st\<lparr>grid := next_grid n (grid st),
            aug_grid := map pad_wrap (pad_wrap (next_grid n (grid st)))\<rparr>"
  have "update st = Some ?st'" using update_wf [OF assms(1) wf] .
  moreover have "grid ?st' = simultaneous_update n (grid st)"
    using next_grid_simultaneous [OF assms(2,3)] by simp
  moreover have "aug_inv ?st'" using wf_life_next [OF assms(1), where st = st and g = "grid st"]
    by (simp add: wf_life_def)
  ultimately show ?thesis by blast
qed

theorem update_is_simultaneous_witness:
  "\<exists>st'. update example_life = Some st' \<and>
      grid st' = simultaneous_update 3 (grid example_life) \<and> aug_inv st'"
proof -
  have 1: "square 3 (grid example_life)" using square_example_grid by (simp add: example_life_def)
  have 2: "binary (grid example_life)" using binary_example_grid by (simp add: example_life_def)
  have 3: "aug_inv example_life" using wf_example_life by (simp add: wf_life_def)
  show ?thesis by (rule update_is_simultaneous [OF _ 1 2 3]) simp
qed

text \<open>
  C5 (rule correctness). For a cell in state \<open>s \<in> {0, 1}\<close> whose neighbour count is
  \<open>c \<in> [0, 8]\<close>, one execution of the loop body (write 1 if the count is 3, write 0 if
  it is neither 3 nor 2, write nothing if it is 2) leaves the cell in the state that the
  standard rule prescribes: alive iff (\<open>s\<close> alive and \<open>c\<close> is 2 or 3) or (\<open>s\<close> dead and
  \<open>c\<close> is 3).
\<close>

theorem update_cell_standard_rule:
  assumes "s = 0 \<or> s = 1" and "0 \<le> c" and "c \<le> 8"
    and "neighbor_sum st row col = Some c"
    and "row < length (grid st)" and "col < length (grid st ! row)"
    and "grid st ! row ! col = s"
  shows "\<exists>st'. update_cell row col st = Some st' \<and> grid st' ! row ! col = gol_rule s c \<and>
           (gol_rule s c = 1 \<longleftrightarrow> (s = 1 \<and> (c = 2 \<or> c = 3)) \<or> (s = 0 \<and> c = 3))"
  using assms by (auto simp: update_cell_def set_cell_def gol_rule_def)

theorem update_cell_standard_rule_witness:
  "\<exists>st'. update_cell 1 1 example_life = Some st' \<and> grid st' ! 1 ! 1 = gol_rule 1 3 \<and>
           (gol_rule 1 3 = 1 \<longleftrightarrow> ((1::int) = 1 \<and> ((3::int) = 2 \<or> (3::int) = 3)) \<or> ((1::int) = 0 \<and> (3::int) = 3))"
proof -
  have ns: "neighbor_sum example_life 1 1 = Some 3"
    using neighbor_sum_eq [OF square_example_grid, of 1 1 example_life]
    by (simp add: example_life_def naive_neighbor_sum_def neighbor_offsets_def wrap_index_def
        example_grid_def)
  show ?thesis
    by (rule update_cell_standard_rule [OF _ _ _ ns])
      (simp_all add: example_life_def example_grid_def)
qed

text \<open>
  C6 (layout of the augmented grid). For every \<open>n \<times> n\<close> grid \<open>g\<close> (\<open>n > 0\<close>),
  \<^verbatim>\<open>form_aug_grid(g)\<close> returns an \<open>(n+2) \<times> (n+2)\<close> array whose interior is \<open>g\<close>, whose
  row 0 is the last row of \<open>g\<close>, whose row \<open>n+1\<close> is the first row of \<open>g\<close>, whose column 0
  is the last column, whose column \<open>n+1\<close> is the first column, and whose four corners are
  the diagonally opposite corners of \<open>g\<close>.
\<close>

theorem form_aug_grid_layout:
  assumes "0 < n" and "square n g"
  shows "\<exists>aug. form_aug_grid g = Some aug \<and> length aug = n + 2 \<and>
           (\<forall>i<n + 2. length (aug ! i) = n + 2) \<and>
           (\<forall>i<n. \<forall>j<n. aug ! (i + 1) ! (j + 1) = g ! i ! j) \<and>
           (\<forall>j<n. aug ! 0 ! (j + 1) = g ! (n - 1) ! j) \<and>
           (\<forall>j<n. aug ! (n + 1) ! (j + 1) = g ! 0 ! j) \<and>
           (\<forall>i<n. aug ! (i + 1) ! 0 = g ! i ! (n - 1)) \<and>
           (\<forall>i<n. aug ! (i + 1) ! (n + 1) = g ! i ! 0) \<and>
           aug ! 0 ! 0 = g ! (n - 1) ! (n - 1) \<and>
           aug ! 0 ! (n + 1) = g ! (n - 1) ! 0 \<and>
           aug ! (n + 1) ! 0 = g ! 0 ! (n - 1) \<and>
           aug ! (n + 1) ! (n + 1) = g ! 0 ! 0"
proof -
  let ?A = "map pad_wrap (pad_wrap g)"
  note A = aug_nth [OF assms(2,1)]
  have sq: "square (n + 2) ?A" using aug_shape [OF assms(2,1)] .
  have 1: "form_aug_grid g = Some ?A" using form_aug_grid_Some [OF assms(2,1)] .
  have 2: "length ?A = n + 2" using sq by (simp add: square_def)
  have 3: "\<forall>i<n + 2. length (?A ! i) = n + 2" using sq by (simp add: square_nth_length)
  have 4: "\<forall>i<n. \<forall>j<n. ?A ! (i + 1) ! (j + 1) = g ! i ! j"
    using A by simp
  have 5: "\<forall>j<n. ?A ! 0 ! (j + 1) = g ! (n - 1) ! j"
    using A [of 0] assms(1) by simp
  have 6: "\<forall>j<n. ?A ! (n + 1) ! (j + 1) = g ! 0 ! j"
    using A [of "n + 1"] assms(1) by simp
  have 7: "\<forall>i<n. ?A ! (i + 1) ! 0 = g ! i ! (n - 1)"
    using A [of _ 0] assms(1) by simp
  have 8: "\<forall>i<n. ?A ! (i + 1) ! (n + 1) = g ! i ! 0"
    using A [of _ "n + 1"] assms(1) by simp
  have 9: "?A ! 0 ! 0 = g ! (n - 1) ! (n - 1)" "?A ! 0 ! (n + 1) = g ! (n - 1) ! 0"
    "?A ! (n + 1) ! 0 = g ! 0 ! (n - 1)" "?A ! (n + 1) ! (n + 1) = g ! 0 ! 0"
    using A [of 0 0] A [of 0 "n + 1"] A [of "n + 1" 0] A [of "n + 1" "n + 1"] assms(1)
    by simp_all
  show ?thesis
    using 1 2 3 4 5 6 7 8 9 by blast
qed

theorem form_aug_grid_layout_witness:
  "\<exists>aug. form_aug_grid example_grid = Some aug \<and> length aug = 3 + 2 \<and>
           (\<forall>i<3 + 2. length (aug ! i) = 3 + 2) \<and>
           (\<forall>i<3. \<forall>j<3. aug ! (i + 1) ! (j + 1) = example_grid ! i ! j) \<and>
           (\<forall>j<3. aug ! 0 ! (j + 1) = example_grid ! (3 - 1) ! j) \<and>
           (\<forall>j<3. aug ! (3 + 1) ! (j + 1) = example_grid ! 0 ! j) \<and>
           (\<forall>i<3. aug ! (i + 1) ! 0 = example_grid ! i ! (3 - 1)) \<and>
           (\<forall>i<3. aug ! (i + 1) ! (3 + 1) = example_grid ! i ! 0) \<and>
           aug ! 0 ! 0 = example_grid ! (3 - 1) ! (3 - 1) \<and>
           aug ! 0 ! (3 + 1) = example_grid ! (3 - 1) ! 0 \<and>
           aug ! (3 + 1) ! 0 = example_grid ! 0 ! (3 - 1) \<and>
           aug ! (3 + 1) ! (3 + 1) = example_grid ! 0 ! 0"
  by (rule form_aug_grid_layout [OF _ square_example_grid]) simp

text \<open>
  C7 (partition coverage). When the number \<open>w\<close> of processes divides \<open>n\<close>, the map
  \<^verbatim>\<open>row % mpi_size\<close> gives every row below \<open>n\<close> exactly one owner below \<open>w\<close>; the rows
  owned by different ranks are disjoint, together they are all rows \<open>0, \<dots>, n - 1\<close>, and
  every rank owns exactly \<open>n / w\<close> rows.
\<close>

theorem row_ownership_partition:
  assumes "0 < w" and "n mod w = 0"
  shows "(\<forall>row<n. \<exists>!r. r < w \<and> owner row w = Some r) \<and>
         (\<forall>r1 r2. r1 \<noteq> r2 \<longrightarrow> set (owned_rows n w r1) \<inter> set (owned_rows n w r2) = {}) \<and>
         (\<Union>r<w. set (owned_rows n w r)) = {0..<n} \<and>
         (\<forall>r<w. length (owned_rows n w r) = n div w \<and> distinct (owned_rows n w r))"
proof -
  have 1: "\<forall>row<n. \<exists>!r. r < w \<and> owner row w = Some r"
    using assms(1) by (auto simp: owner_def)
  have 2: "\<forall>r1 r2. r1 \<noteq> r2 \<longrightarrow> set (owned_rows n w r1) \<inter> set (owned_rows n w r2) = {}"
    by (auto simp: owned_rows_def)
  have 3: "(\<Union>r<w. set (owned_rows n w r)) = {0..<n}"
    using assms(1) by (auto simp: owned_rows_def owner_def)
  have 4: "\<forall>r<w. length (owned_rows n w r) = n div w \<and> distinct (owned_rows n w r)"
    using length_owned_rows [OF assms] by (simp add: owned_rows_def)
  show ?thesis using 1 2 3 4 by blast
qed

theorem row_ownership_partition_witness:
  "(\<exists>!r. r < 5 \<and> owner 7 5 = Some r) \<and>
   set (owned_rows 50 5 0) \<inter> set (owned_rows 50 5 1) = {} \<and>
   (\<Union>r<5. set (owned_rows 50 5 r)) = {0..<50} \<and>
   length (owned_rows 50 5 2) = 50 div 5 \<and> distinct (owned_rows 50 5 2)"
proof -
  have "(0::nat) < 5" and "(50::nat) mod 5 = 0" by simp_all
  from row_ownership_partition [OF this] show ?thesis by simp
qed

text \<open>
  C8 (block still life). On a grid of size \<open>n \<ge> 4\<close> whose only live cells are a 2 by 2
  block, one call of \<^verbatim>\<open>update\<close> returns the state unchanged, and so does any number
  \<open>k\<close> of calls.
\<close>

theorem block_still_life:
  assumes "4 \<le> n" and "i < n" and "j < n" and "grid st = block_grid n i j" and "aug_inv st"
  shows "update st = Some st \<and> repeat_m k update st = Some st"
proof -
  have n: "0 < n" using assms(1) by simp
  have sq: "square n (grid st)" using assms(4) by (simp add: square_block_grid)
  have wf: "wf_life n st" using sq assms(5) by (simp add: wf_life_def)
  have aug: "aug_grid st = map pad_wrap (pad_wrap (grid st))"
    using aug_inv_eq [OF n sq assms(5)] .
  have fixed: "next_grid n (grid st) = grid st"
    using block_fixed [OF assms(1-3)] assms(4) by simp
  have one: "update st = Some st"
    using update_wf [OF n wf] aug by (simp add: fixed)
  have "repeat_m k update st = Some st"
    by (induction k) (simp_all add: one)
  with one show ?thesis by simp
qed

theorem block_still_life_witness:
  "update block_life = Some block_life \<and> repeat_m 7 update block_life = Some block_life"
proof -
  have 1: "grid block_life = block_grid 4 1 1" by (simp add: block_life_def)
  have 2: "aug_inv block_life" using wf_block_life by (simp add: wf_life_def)
  show ?thesis by (rule block_still_life [OF _ _ _ 1 2]) simp_all
qed

text \<open>
  C9 (the augmented grid is never stale). The invariant
  \<^verbatim>\<open>aug_grid = form_aug_grid(grid)\<close> holds after the construction of \<^verbatim>\<open>Life\<close>, on every
  process after the startup broadcast, after every call of \<^verbatim>\<open>update\<close> and on every
  process after every call of \<^verbatim>\<open>update_para_1d_dec\<close>, where all processes moreover hold
  the same grid. Each of the four operations returns on well-formed input.
\<close>

theorem aug_grid_invariant:
  assumes "0 < n"
  shows "(square n g \<longrightarrow> (\<exists>st. Life_init n g = Some st \<and> aug_inv st)) \<and>
         (rnd \<noteq> [] \<and> (\<forall>g\<in>set rnd. square n g) \<longrightarrow>
            (\<exists>ws. startup n rnd = Some ws \<and> length ws = length rnd \<and>
               (\<forall>st\<in>set ws. aug_inv st \<and> square n (grid st)))) \<and>
         (square n (grid st) \<and> aug_inv st \<longrightarrow>
            (\<exists>st'. update st = Some st' \<and> aug_inv st' \<and> square n (grid st'))) \<and>
         (ws \<noteq> [] \<and> (\<forall>st\<in>set ws. square n (grid st) \<and> aug_inv st) \<longrightarrow>
            (\<exists>ws'. update_para_1d_dec n ws = Some ws' \<and> length ws' = length ws \<and>
               (\<forall>st'\<in>set ws'. aug_inv st' \<and> square n (grid st') \<and> grid st' = grid (hd ws'))))"
proof (intro conjI impI)
  assume sq: "square n g"
  let ?st = "\<lparr>N = n, grid = g, aug_grid = map pad_wrap (pad_wrap g)\<rparr>"
  have "wf_life n ?st" using sq by (simp add: wf_life_aug [OF assms])
  then show "\<exists>st. Life_init n g = Some st \<and> aug_inv st"
    using Life_init_eq [OF assms sq] by (auto simp: wf_life_def)
next
  assume h: "rnd \<noteq> [] \<and> (\<forall>g\<in>set rnd. square n g)"
  let ?st = "\<lparr>N = n, grid = hd rnd, aug_grid = map pad_wrap (pad_wrap (hd rnd))\<rparr>"
  have "square n (hd rnd)" using h by simp
  then have "wf_life n ?st" by (simp add: wf_life_aug [OF assms])
  then have "\<forall>st\<in>set (map (\<lambda>g. ?st) rnd). aug_inv st \<and> square n (grid st)"
    by (simp add: wf_life_def)
  moreover have "startup n rnd = Some (map (\<lambda>g. ?st) rnd)"
    using startup_eq [OF assms] h by simp
  ultimately show "\<exists>ws. startup n rnd = Some ws \<and> length ws = length rnd \<and>
      (\<forall>st\<in>set ws. aug_inv st \<and> square n (grid st))"
    by (intro exI [where x = "map (\<lambda>g. ?st) rnd"]) simp
next
  assume "square n (grid st) \<and> aug_inv st"
  then have wf: "wf_life n st" by (simp add: wf_life_def)
  let ?st' = "st\<lparr>grid := next_grid n (grid st),
            aug_grid := map pad_wrap (pad_wrap (next_grid n (grid st)))\<rparr>"
  have "wf_life n ?st'" using wf_life_next [OF assms] .
  then show "\<exists>st'. update st = Some st' \<and> aug_inv st' \<and> square n (grid st')"
    using update_wf [OF assms wf] by (auto simp: wf_life_def)
next
  assume h: "ws \<noteq> [] \<and> (\<forall>st\<in>set ws. square n (grid st) \<and> aug_inv st)"
  then have ne: "ws \<noteq> []" and wf: "\<forall>st\<in>set ws. wf_life n st" by (simp_all add: wf_life_def)
  let ?P = "para_grid n ws"
  let ?ws' = "map (\<lambda>st. st\<lparr>grid := ?P, aug_grid := map pad_wrap (pad_wrap ?P)\<rparr>) ws"
  have one: "update_para_1d_dec n ws = Some ?ws'" using update_para_wf [OF assms ne wf] .
  have hd: "grid (hd ?ws') = ?P" using ne by (simp add: hd_map)
  have "\<forall>st'\<in>set ?ws'. aug_inv st' \<and> square n (grid st') \<and> grid st' = grid (hd ?ws')"
    unfolding hd using wf_life_para_next [OF assms, where ws = ws] by (auto simp: wf_life_def)
  then show "\<exists>ws'. update_para_1d_dec n ws = Some ws' \<and> length ws' = length ws \<and>
      (\<forall>st'\<in>set ws'. aug_inv st' \<and> square n (grid st') \<and> grid st' = grid (hd ws'))"
    using one by (intro exI [where x = ?ws']) simp
qed

theorem aug_grid_invariant_witness:
  "(\<exists>st. Life_init 3 example_grid = Some st \<and> aug_inv st) \<and>
   (\<exists>ws. startup 3 example_rnd = Some ws \<and> length ws = length example_rnd \<and>
      (\<forall>st\<in>set ws. aug_inv st \<and> square 3 (grid st))) \<and>
   (\<exists>st'. update example_life = Some st' \<and> aug_inv st' \<and> square 3 (grid st')) \<and>
   (\<exists>ws'. update_para_1d_dec 3 example_world = Some ws' \<and> length ws' = length example_world \<and>
      (\<forall>st'\<in>set ws'. aug_inv st' \<and> square 3 (grid st') \<and> grid st' = grid (hd ws')))"
proof -
  have pos: "(0::nat) < 3" by simp
  have 1: "square 3 example_grid" by (rule square_example_grid)
  have 2: "example_rnd \<noteq> [] \<and> (\<forall>g\<in>set example_rnd. square 3 g)"
    using square_example_rnd by (simp add: example_rnd_def)
  have 3: "square 3 (grid example_life) \<and> aug_inv example_life"
    using wf_example_life by (simp add: wf_life_def)
  have 4: "example_world \<noteq> [] \<and> (\<forall>st\<in>set example_world. square 3 (grid st) \<and> aug_inv st)"
    using wf_example_world by (simp add: example_world_def example_rnd_def)
  show ?thesis
    using aug_grid_invariant [OF pos, of example_grid example_rnd example_life example_world]
      1 2 3 4 by blast
qed

text \<open>
  C10 (cells stay 0 or 1). If every cell of the grid is 0 or 1, then after any number
  \<open>k\<close> of calls of \<^verbatim>\<open>update\<close>, or of \<^verbatim>\<open>update_para_1d_dec\<close> on all processes, every cell
  is still 0 or 1; and in such a state \<^verbatim>\<open>neighbor_sum(row, col)\<close> returns a number between
  0 and 8 for every \<open>row, col < n\<close>.
\<close>

theorem cells_stay_binary:
  assumes "0 < n"
  shows "(square n (grid st) \<and> aug_inv st \<and> binary (grid st) \<longrightarrow>
            (\<exists>st'. repeat_m k update st = Some st' \<and> binary (grid st') \<and>
               square n (grid st') \<and> aug_inv st')) \<and>
         (ws \<noteq> [] \<and> (\<forall>st\<in>set ws. square n (grid st) \<and> aug_inv st \<and> binary (grid st)) \<longrightarrow>
            (\<exists>ws'. repeat_m k (update_para_1d_dec n) ws = Some ws' \<and>
               (\<forall>st'\<in>set ws'. binary (grid st') \<and> square n (grid st') \<and> aug_inv st'))) \<and>
         (square n (grid st) \<and> aug_inv st \<and> binary (grid st) \<and> row < n \<and> col < n \<longrightarrow>
            (\<exists>s. neighbor_sum st row col = Some s \<and> 0 \<le> s \<and> s \<le> 8))"
proof (intro conjI impI)
  assume h: "square n (grid st) \<and> aug_inv st \<and> binary (grid st)"
  then have wf: "wf_life n st" by (simp add: wf_life_def)
  from repeat_update [OF assms wf, of k] obtain st' where
    st': "repeat_m k update st = Some st'" "wf_life n st'"
    "grid st' = (next_grid n ^^ k) (grid st)" by blast
  have "binary (grid st')"
    using binary_funpow_next_grid [of n "grid st" k] h st'(3) by simp
  with st' show "\<exists>st'. repeat_m k update st = Some st' \<and> binary (grid st') \<and>
      square n (grid st') \<and> aug_inv st'"
    by (auto simp: wf_life_def)
next
  assume h: "ws \<noteq> [] \<and> (\<forall>st\<in>set ws. square n (grid st) \<and> aug_inv st \<and> binary (grid st))"
  then have ne: "ws \<noteq> []" and wf: "\<forall>st\<in>set ws. wf_life n st \<and> binary (grid st)"
    by (simp_all add: wf_life_def)
  from repeat_update_para_binary [OF assms ne wf, of k]
  show "\<exists>ws'. repeat_m k (update_para_1d_dec n) ws = Some ws' \<and>
      (\<forall>st'\<in>set ws'. binary (grid st') \<and> square n (grid st') \<and> aug_inv st')"
    by (auto simp: wf_life_def)
next
  assume h: "square n (grid st) \<and> aug_inv st \<and> binary (grid st) \<and> row < n \<and> col < n"
  then have aug: "aug_grid st = map pad_wrap (pad_wrap (grid st))"
    using aug_inv_eq [OF assms] by simp
  have "neighbor_sum st row col = Some (naive_neighbor_sum n (grid st) row col)"
    using neighbor_sum_eq [OF _ assms _ _ aug] h by simp
  then show "\<exists>s. neighbor_sum st row col = Some s \<and> 0 \<le> s \<and> s \<le> 8"
    using naive_neighbor_sum_bounds [of n "grid st" row col] h assms by simp
qed

theorem cells_stay_binary_witness:
  "(\<exists>st'. repeat_m 5 update example_life = Some st' \<and> binary (grid st') \<and>
      square 3 (grid st') \<and> aug_inv st') \<and>
   (\<exists>ws'. repeat_m 5 (update_para_1d_dec 3) example_world = Some ws' \<and>
      (\<forall>st'\<in>set ws'. binary (grid st') \<and> square 3 (grid st') \<and> aug_inv st')) \<and>
   (\<exists>s. neighbor_sum example_life 2 0 = Some s \<and> 0 \<le> s \<and> s \<le> 8)"
proof -
  have pos: "(0::nat) < 3" by simp
  have 1: "square 3 (grid example_life) \<and> aug_inv example_life \<and> binary (grid example_life)"
    using wf_example_life binary_example_grid by (simp add: wf_life_def example_life_def)
  have 2: "example_world \<noteq> [] \<and>
      (\<forall>st\<in>set example_world. square 3 (grid st) \<and> aug_inv st \<and> binary (grid st))"
    using wf_example_world binary_example_rnd by (auto simp: example_world_def example_rnd_def)
  have 3: "(2::nat) < 3 \<and> (0::nat) < 3" by simp
  show ?thesis
    using cells_stay_binary [OF pos, of example_life 5 example_world 2 0] 1 2 3 by blast
qed

text \<open>
  C2 (determinism). For every grid size \<open>n\<close>, every number of processes that divides
  \<open>n\<close>, every number \<open>k\<close> of generations and all initial random arrays \<open>rnd\<close> (one per
  process; the startup broadcast hands the array of rank 0 to all), the parallel program
  completes \<open>k\<close> calls of \<^verbatim>\<open>update_para_1d_dec\<close>, the serial program started from the same
  array completes \<open>k\<close> calls of \<^verbatim>\<open>update\<close>, and afterwards every process of the parallel
  run holds exactly the grid of the serial run.
\<close>

theorem parallel_equals_serial:
  assumes "0 < n" and "rnd \<noteq> []" and "\<forall>g\<in>set rnd. square n g" and "n mod length rnd = 0"
  shows "\<exists>ws0 s0 wsk sk.
           startup n rnd = Some ws0 \<and> startup n [hd rnd] = Some [s0] \<and>
           repeat_m k (update_para_1d_dec n) ws0 = Some wsk \<and>
           repeat_m k update s0 = Some sk \<and>
           length wsk = length rnd \<and> (\<forall>w\<in>set wsk. grid w = grid sk)"
proof -
  let ?s0 = "\<lparr>N = n, grid = hd rnd, aug_grid = map pad_wrap (pad_wrap (hd rnd))\<rparr>"
  let ?ws0 = "map (\<lambda>g. ?s0) rnd"
  have sq: "square n (hd rnd)" using assms(2,3) by simp
  have wf: "wf_life n ?s0" using sq by (simp add: wf_life_aug [OF assms(1)])
  have par0: "startup n rnd = Some ?ws0" using startup_eq [OF assms(1-3)] .
  have ser0: "startup n [hd rnd] = Some [?s0]"
    using startup_eq [OF assms(1), of "[hd rnd]"] sq by simp
  have ne: "?ws0 \<noteq> []" using assms(2) by simp
  have same: "\<forall>st\<in>set ?ws0. grid st = hd rnd \<and> wf_life n st" using wf by simp
  from repeat_update_para [OF assms(1) ne same, of k] obtain wsk where
    wsk: "repeat_m k (update_para_1d_dec n) ?ws0 = Some wsk" "length wsk = length ?ws0"
    "\<forall>st\<in>set wsk. grid st = (next_grid n ^^ k) (hd rnd) \<and> wf_life n st" by blast
  from repeat_update [OF assms(1) wf, of k] obtain sk where
    sk: "repeat_m k update ?s0 = Some sk" "grid sk = (next_grid n ^^ k) (grid ?s0)" by blast
  have "\<forall>w\<in>set wsk. grid w = grid sk" using wsk(3) sk(2) by simp
  with par0 ser0 wsk(1,2) sk(1) show ?thesis by simp
qed

theorem parallel_equals_serial_witness:
  "\<exists>ws0 s0 wsk sk.
     startup 3 example_rnd = Some ws0 \<and> startup 3 [hd example_rnd] = Some [s0] \<and>
     repeat_m 4 (update_para_1d_dec 3) ws0 = Some wsk \<and>
     repeat_m 4 update s0 = Some sk \<and>
     length wsk = length example_rnd \<and> (\<forall>w\<in>set wsk. grid w = grid sk)"
proof -
  have 1: "example_rnd \<noteq> []" by (simp add: example_rnd_def)
  have 2: "3 mod length example_rnd = 0" by (simp add: example_rnd_def)
  show ?thesis
    by (rule parallel_equals_serial [OF _ 1 square_example_rnd 2]) simp
qed

text \<open>
  C1 (configuration rejection). The specification asks that a grid size that the number
  of processes does not divide, in particular \<open>N = 10\<close> with 3 processes, be rejected at
  startup on every process, with a diagnostic and a non-zero exit status. The check of the
  script compares the floor quotient \<^verbatim>\<open>N / mpi_size\<close> with the truncated floating-point
  quotient \<^verbatim>\<open>int(N*1.0 / mpi_size)\<close>, which are the same number, so the branch that prints
  the diagnostic and exits is never taken: for \<open>N = 10\<close> and 3 processes every rank
  proceeds to the simulation, and rank 0 announces the parallel run. The same happens
  with the grid size 50 that the script ships with.
\<close>

theorem startup_check_accepts_10_by_3:
  "startup_check 10 3 0 = ([Parallelizing 3], Proceed) \<and>
   startup_check 10 3 1 = ([], Proceed) \<and>
   startup_check 10 3 2 = ([], Proceed) \<and>
   startup_check 50 3 0 = ([Parallelizing 3], Proceed) \<and>
   startup_check 50 3 1 = ([], Proceed) \<and>
   startup_check 50 3 2 = ([], Proceed)"
  by (simp add: startup_check_def py_int_def)

end
